theory Spec2Isabelle
  imports Complex_Main "HOL-Library.Code_Target_Nat"
begin

section \<open>Text\<close>

text \<open>
  A Python \<^verbatim>\<open>str\<close> is modelled as a \<^typ>\<open>string\<close>: a list of 8-bit characters, read as
  the code points 0..255 (Latin-1), so that \<^const>\<open>length\<close> counts what Python's
  \<^verbatim>\<open>len\<close> counts. The marker delimiters are the code points 0xAB and 0xBB.
  The character predicates below are Python's on that range.
\<close>

text \<open>The code point of a character (\<^verbatim>\<open>ord\<close>).\<close>

definition ord :: "char \<Rightarrow> nat" where
  "ord c = of_char c"

text \<open>\<^verbatim>\<open>str.isspace\<close> on one character; the regular expression class \<^verbatim>\<open>\s\<close> is the same set.\<close>

definition isspace :: "char \<Rightarrow> bool" where
  "isspace c = (ord c \<in> {9, 10, 11, 12, 13, 28, 29, 30, 31, 32, 133, 160})"

text \<open>The class \<^verbatim>\<open>\d\<close>: the decimal digits.\<close>

definition isdigit :: "char \<Rightarrow> bool" where
  "isdigit c = (48 \<le> ord c \<and> ord c \<le> 57)"

definition isupper_char :: "char \<Rightarrow> bool" where
  "isupper_char c =
     ((65 \<le> ord c \<and> ord c \<le> 90) \<or> (192 \<le> ord c \<and> ord c \<le> 222 \<and> ord c \<noteq> 215))"

definition islower_char :: "char \<Rightarrow> bool" where
  "islower_char c =
     ((97 \<le> ord c \<and> ord c \<le> 122) \<or> ord c = 170 \<or> ord c = 181 \<or> ord c = 186
      \<or> (223 \<le> ord c \<and> ord c \<le> 255 \<and> ord c \<noteq> 247))"

text \<open>
  The simple case mappings. The upper-case forms of 0xB5, 0xDF and 0xFF lie outside the
  range (or are two characters); these three characters are left in place by
  \<open>to_upper\<close>, which is used for case-insensitive matching only.
\<close>

definition to_lower :: "char \<Rightarrow> char" where
  "to_lower c = (if isupper_char c then char_of (ord c + 32) else c)"

definition to_upper :: "char \<Rightarrow> char" where
  "to_upper c =
     (if islower_char c \<and> ord c \<notin> {170, 181, 186, 223, 255} then char_of (ord c - 32) else c)"

text \<open>\<^verbatim>\<open>str.upper\<close>: 0xDF becomes \<^verbatim>\<open>SS\<close>.\<close>

definition upper :: "string \<Rightarrow> string" where
  "upper s = concat (map (\<lambda>c. if ord c = 223 then ''SS'' else [to_upper c]) s)"

text \<open>\<^verbatim>\<open>str.isupper\<close>: some cased character, and no lower-case one.\<close>

definition isupper :: "string \<Rightarrow> bool" where
  "isupper s = ((\<exists>c \<in> set s. isupper_char c) \<and> \<not> (\<exists>c \<in> set s. islower_char c))"

text \<open>\<^verbatim>\<open>str.strip()\<close>: white space removed at both ends.\<close>

definition lstrip :: "string \<Rightarrow> string" where
  "lstrip s = dropWhile isspace s"

definition rstrip :: "string \<Rightarrow> string" where
  "rstrip s = rev (dropWhile isspace (rev s))"

definition strip :: "string \<Rightarrow> string" where
  "strip s = rstrip (lstrip s)"

text \<open>\<^verbatim>\<open>str.split()\<close>: the maximal runs of characters that are not white space.\<close>

fun split_acc :: "string \<Rightarrow> string \<Rightarrow> string list" where
  "split_acc w [] = (if w = [] then [] else [w])"
| "split_acc w (c # cs) =
     (if isspace c then (if w = [] then split_acc [] cs else w # split_acc [] cs)
      else split_acc (w @ [c]) cs)"

definition split :: "string \<Rightarrow> string list" where
  "split s = split_acc [] s"

text \<open>The operator \<^verbatim>\<open>in\<close> on strings: \<open>p\<close> occurs in \<open>s\<close>.\<close>

fun is_prefix :: "string \<Rightarrow> string \<Rightarrow> bool" where
  "is_prefix [] s = True"
| "is_prefix (p # ps) [] = False"
| "is_prefix (p # ps) (c # cs) = (p = c \<and> is_prefix ps cs)"

fun contains :: "string \<Rightarrow> string \<Rightarrow> bool" where
  "contains p [] = (p = [])"
| "contains p (c # cs) = (is_prefix p (c # cs) \<or> contains p cs)"

section \<open>Regular expressions\<close>

text \<open>
  The patterns of the program are written in Python's \<^verbatim>\<open>re\<close> syntax. A compiled
  pattern is modelled by its syntax tree, and matching by a backtracking matcher that
  lists the ways a pattern can match at a position in Python's order of preference:
  the first element is the match Python reports. A position is the captured groups so
  far, whether it is the start of the text, and the text still to be read.
\<close>

datatype atom =
    Ch char              \<comment> \<open>one character\<close>
  | Rng char char        \<comment> \<open>a range \<^verbatim>\<open>a-z\<close>\<close>
  | Digit                \<comment> \<open>\<^verbatim>\<open>\d\<close>\<close>
  | Space                \<comment> \<open>\<^verbatim>\<open>\s\<close>\<close>

datatype regex =
    Cls "atom list"                      \<comment> \<open>a class \<^verbatim>\<open>[...]\<close>, or a single character\<close>
  | NCls "atom list"                     \<comment> \<open>a negated class \<^verbatim>\<open>[^...]\<close>\<close>
  | Dot                                  \<comment> \<open>\<^verbatim>\<open>.\<close>: any character but the line feed\<close>
  | Bol                                  \<comment> \<open>\<^verbatim>\<open>^\<close>\<close>
  | Eol                                  \<comment> \<open>\<^verbatim>\<open>$\<close>\<close>
  | Eps                                  \<comment> \<open>the empty pattern\<close>
  | Seq regex regex
  | Alt regex regex
  | Rep bool nat "nat option" regex      \<comment> \<open>greedy?, least and greatest number of repetitions\<close>
  | Grp nat regex                        \<comment> \<open>the capturing group of that number\<close>

type_synonym captures = "(nat \<times> string) list"
type_synonym position = "captures \<times> bool \<times> string"

fun atom_has :: "atom \<Rightarrow> char \<Rightarrow> bool" where
  "atom_has (Ch a) c = (c = a)"
| "atom_has (Rng a b) c = (ord a \<le> ord c \<and> ord c \<le> ord b)"
| "atom_has Digit c = isdigit c"
| "atom_has Space c = isspace c"

text \<open>
  Membership in a class. With \<^verbatim>\<open>re.IGNORECASE\<close> (\<open>ic\<close>) a character is in the class
  when its lower-case or its upper-case form is.
\<close>

definition in_class :: "bool \<Rightarrow> atom list \<Rightarrow> char \<Rightarrow> bool" where
  "in_class ic as c =
     (if ic then list_ex (\<lambda>a. atom_has a (to_lower c) \<or> atom_has a (to_upper c)) as
      else list_ex (\<lambda>a. atom_has a c) as)"

definition one_char :: "(char \<Rightarrow> bool) \<Rightarrow> position \<Rightarrow> position list" where
  "one_char P st =
     (case st of (g, b, []) \<Rightarrow> [] | (g, b, c # cs) \<Rightarrow> if P c then [(g, False, cs)] else [])"

definition rest :: "position \<Rightarrow> string" where
  "rest st = snd (snd st)"

definition shorter :: "position \<Rightarrow> position \<Rightarrow> bool" where
  "shorter st' st = (length (rest st') < length (rest st))"

definition dec :: "nat option \<Rightarrow> nat option" where
  "dec hi = map_option (\<lambda>h. h - 1) hi"

text \<open>
  Repetition of a matcher \<open>m\<close>: first the \<open>lo\<close> repetitions that are required, then
  up to \<open>hi\<close> in all. A greedy repetition prefers one more round to stopping, a lazy
  one prefers stopping. A round that is not required must read something.
\<close>

function rep :: "(position \<Rightarrow> position list) \<Rightarrow> bool \<Rightarrow> nat \<Rightarrow> nat option \<Rightarrow> position
    \<Rightarrow> position list" where
  "rep m greedy lo hi st =
     (if 0 < lo then concat (map (rep m greedy (lo - 1) (dec hi)) (m st))
      else if hi = Some 0 then [st]
      else if greedy
        then concat (map (rep m greedy 0 (dec hi)) (filter (\<lambda>st'. shorter st' st) (m st))) @ [st]
        else st # concat (map (rep m greedy 0 (dec hi)) (filter (\<lambda>st'. shorter st' st) (m st))))"
  by pat_completeness auto
termination
  by (relation "measures [\<lambda>(m, greedy, lo, hi, st). lo, \<lambda>(m, greedy, lo, hi, st). length (rest st)]")
    (auto simp: shorter_def)

declare rep.simps [simp del]

fun rmatch :: "bool \<Rightarrow> regex \<Rightarrow> position \<Rightarrow> position list" where
  "rmatch ic (Cls as) st = one_char (in_class ic as) st"
| "rmatch ic (NCls as) st = one_char (\<lambda>c. \<not> in_class ic as c) st"
| "rmatch ic Dot st = one_char (\<lambda>c. ord c \<noteq> 10) st"
| "rmatch ic Bol st = (if fst (snd st) then [st] else [])"
| "rmatch ic Eol st = (if rest st = [] \<or> rest st = [CHR 0x0A] then [st] else [])"
| "rmatch ic Eps st = [st]"
| "rmatch ic (Seq r1 r2) st = concat (map (rmatch ic r2) (rmatch ic r1 st))"
| "rmatch ic (Alt r1 r2) st = rmatch ic r1 st @ rmatch ic r2 st"
| "rmatch ic (Rep greedy lo hi r) st = rep (rmatch ic r) greedy lo hi st"
| "rmatch ic (Grp n r) st =
     map (\<lambda>st'. ((n, take (length (rest st) - length (rest st')) (rest st)) # fst st',
                  fst (snd st'), rest st'))
       (rmatch ic r st)"

text \<open>
  \<^verbatim>\<open>pattern.match(text)\<close> matches at the start of the text; \<^verbatim>\<open>pattern.search(text)\<close>
  tries every position from the left. Both give the position after the match, with its
  groups, or \<open>None\<close>.
\<close>

definition re_match :: "bool \<Rightarrow> regex \<Rightarrow> string \<Rightarrow> position option" where
  "re_match ic r s = (case rmatch ic r ([], True, s) of [] \<Rightarrow> None | st # _ \<Rightarrow> Some st)"

fun search_from :: "bool \<Rightarrow> regex \<Rightarrow> bool \<Rightarrow> string \<Rightarrow> position option" where
  "search_from ic r b [] = (case rmatch ic r ([], b, []) of [] \<Rightarrow> None | st # _ \<Rightarrow> Some st)"
| "search_from ic r b (c # cs) =
     (case rmatch ic r ([], b, c # cs) of
        [] \<Rightarrow> search_from ic r False cs
      | st # _ \<Rightarrow> Some st)"

definition re_search :: "bool \<Rightarrow> regex \<Rightarrow> string \<Rightarrow> position option" where
  "re_search ic r s = search_from ic r True s"

text \<open>\<^verbatim>\<open>match.group(n)\<close>: the text of group \<open>n\<close>, \<open>None\<close> when the group took no part.\<close>

definition group :: "position \<Rightarrow> nat \<Rightarrow> string option" where
  "group st n = map_of (fst st) n"

text \<open>How the patterns below are written.\<close>

abbreviation chr :: "char \<Rightarrow> regex" where
  "chr c \<equiv> Cls [Ch c]"

abbreviation digit :: regex where
  "digit \<equiv> Cls [Digit]"

abbreviation space :: regex where
  "space \<equiv> Cls [Space]"

abbreviation opt :: "regex \<Rightarrow> regex" where
  "opt r \<equiv> Rep True 0 (Some 1) r"

abbreviation star :: "regex \<Rightarrow> regex" where
  "star r \<equiv> Rep True 0 None r"

abbreviation plus :: "regex \<Rightarrow> regex" where
  "plus r \<equiv> Rep True 1 None r"

abbreviation lazy_plus :: "regex \<Rightarrow> regex" where
  "lazy_plus r \<equiv> Rep False 1 None r"

abbreviation times :: "nat \<Rightarrow> regex \<Rightarrow> regex" where
  "times n r \<equiv> Rep True n (Some n) r"

abbreviation at_least :: "nat \<Rightarrow> regex \<Rightarrow> regex" where
  "at_least n r \<equiv> Rep True n None r"

fun seqs :: "regex list \<Rightarrow> regex" where
  "seqs [] = Eps"
| "seqs [r] = r"
| "seqs (r # rs) = Seq r (seqs rs)"

fun alts :: "regex list \<Rightarrow> regex" where
  "alts [] = NCls [Rng (CHR 0x00) (CHR 0xFF)]"
| "alts [r] = r"
| "alts (r # rs) = Alt r (alts rs)"

definition lit :: "string \<Rightarrow> regex" where
  "lit s = seqs (map chr s)"

text \<open>
  \<^verbatim>\<open>re.sub(pattern, repl, text)\<close>: every match, found from the left and not overlapping
  the one before, is replaced. \<open>skip\<close> counts the characters of the current match
  still to be dropped. The patterns substituted in this program match no empty string.
\<close>

fun sub_from :: "bool \<Rightarrow> regex \<Rightarrow> string \<Rightarrow> bool \<Rightarrow> nat \<Rightarrow> string \<Rightarrow> string" where
  "sub_from ic r repl b skip [] =
     (if skip = 0 \<and> rmatch ic r ([], b, []) \<noteq> [] then repl else [])"
| "sub_from ic r repl b skip (c # cs) =
     (if 0 < skip then sub_from ic r repl False (skip - 1) cs
      else (case rmatch ic r ([], b, c # cs) of
              [] \<Rightarrow> c # sub_from ic r repl False 0 cs
            | st # _ \<Rightarrow>
                (let n = length (c # cs) - length (rest st)
                 in if n = 0 then repl @ c # sub_from ic r repl False 0 cs
                    else repl @ sub_from ic r repl False (n - 1) cs)))"

definition re_sub :: "bool \<Rightarrow> regex \<Rightarrow> string \<Rightarrow> string \<Rightarrow> string" where
  "re_sub ic r repl s = sub_from ic r repl True 0 s"

section \<open>Configuration\<close>

text \<open>
  A format template (\<^verbatim>\<open>str.format\<close>) is its literal text and its replacement fields, in
  order. The fields are those the program passes: \<^verbatim>\<open>{type}\<close> and \<^verbatim>\<open>{value}\<close> for a
  hierarchy marker, \<^verbatim>\<open>{prefix}\<close>, \<^verbatim>\<open>{code}\<close> and \<^verbatim>\<open>{suffix}\<close> for a code marker.
\<close>

datatype 'f piece = Text string | Field 'f

datatype marker_field = Type | Value

datatype code_field = Prefix | Code | Suffix

fun format :: "'f piece list \<Rightarrow> ('f \<Rightarrow> string) \<Rightarrow> string" where
  "format [] kw = []"
| "format (Text s # ps) kw = s @ format ps kw"
| "format (Field f # ps) kw = kw f @ format ps kw"

text \<open>
  \<^verbatim>\<open>MarkerConfig\<close>, with every pattern held as the expression it compiles to. Font sizes
  are Python floats; they are only compared, and are modelled as rationals.
\<close>

record MarkerConfig =
  l1_min_font_size :: rat
  l2_min_font_size :: rat
  l3_min_font_size :: rat
  l1_patterns :: "regex list"
  l2_patterns :: "regex list"
  l3_patterns :: "regex list"
  code_pattern :: regex
  code_with_fee_pattern :: regex
  provisional_marker :: string
  asterisk_marker :: string
  fee_pattern :: regex
  skip_patterns :: "regex list"
  content_start_patterns :: "regex list"
  min_line_length :: int
  marker_format :: "marker_field piece list"
  code_marker_format :: "code_field piece list"

abbreviation upper_AZ :: atom where
  "upper_AZ \<equiv> Rng CHR ''A'' CHR ''Z''"

abbreviation lower_az :: atom where
  "lower_az \<equiv> Rng CHR ''a'' CHR ''z''"

abbreviation laquo :: char where
  "laquo \<equiv> CHR 0xAB"

abbreviation raquo :: char where
  "raquo \<equiv> CHR 0xBB"

text \<open>The defaults of the fields of \<^verbatim>\<open>MarkerConfig\<close>, pattern by pattern.\<close>

definition default_l1_patterns :: "regex list" where
  \<open>default_l1_patterns =
     [\<comment> \<open>\<^verbatim>\<open>^[A-Z][A-Z\s\-]+\s*\(\d{2}(?:-\d+)?\)\<close>\<close>
      seqs [Bol, Cls [upper_AZ], plus (Cls [upper_AZ, Space, Ch CHR ''-'']), star space,
            chr CHR ''('', times 2 digit, opt (Seq (chr CHR ''-'') (plus digit)), chr CHR '')''],
      \<comment> \<open>\<^verbatim>\<open>^[A-Z][A-Z\s\-]{10,}$\<close>\<close>
      seqs [Bol, Cls [upper_AZ], at_least 10 (Cls [upper_AZ, Space, Ch CHR ''-'']), Eol],
      \<comment> \<open>\<^verbatim>\<open>^(?:VISITS|GENERAL|ANESTHESIA|INTEGUMENTARY|MUSCULOSKELETAL)\<close>\<close>
      seqs [Bol, alts [lit ''VISITS'', lit ''GENERAL'', lit ''ANESTHESIA'', lit ''INTEGUMENTARY'',
                       lit ''MUSCULOSKELETAL'']],
      \<comment> \<open>\<^verbatim>\<open>^(?:RESPIRATORY|CARDIOVASCULAR|DIGESTIVE|URINARY)\<close>\<close>
      seqs [Bol, alts [lit ''RESPIRATORY'', lit ''CARDIOVASCULAR'', lit ''DIGESTIVE'',
                       lit ''URINARY'']],
      \<comment> \<open>\<^verbatim>\<open>^(?:NERVOUS|ENDOCRINE|MATERNITY|LABORATORY)\<close>\<close>
      seqs [Bol, alts [lit ''NERVOUS'', lit ''ENDOCRINE'', lit ''MATERNITY'', lit ''LABORATORY'']]]\<close>

definition default_l2_patterns :: "regex list" where
  \<open>default_l2_patterns =
     [\<comment> \<open>\<^verbatim>\<open>^[A-Z][a-z]+(?:\s+[A-Z][a-z]+)*\s*(?:Procedures?|Care|Visits?|Services?)\<close>\<close>
      seqs [Bol, Cls [upper_AZ], plus (Cls [lower_az]),
            star (seqs [plus space, Cls [upper_AZ], plus (Cls [lower_az])]), star space,
            alts [Seq (lit ''Procedure'') (opt (chr CHR ''s'')), lit ''Care'',
                  Seq (lit ''Visit'') (opt (chr CHR ''s'')),
                  Seq (lit ''Service'') (opt (chr CHR ''s''))]],
      \<comment> \<open>\<^verbatim>\<open>^(?:Office|Hospital|Virtual|Chronic|Concomitant)\<close>\<close>
      seqs [Bol, alts [lit ''Office'', lit ''Hospital'', lit ''Virtual'', lit ''Chronic'',
                       lit ''Concomitant'']],
      \<comment> \<open>\<^verbatim>\<open>^(?:Investigation|Incision|Excision|Repair)\<close>\<close>
      seqs [Bol, alts [lit ''Investigation'', lit ''Incision'', lit ''Excision'', lit ''Repair'']]]\<close>

definition default_l3_patterns :: "regex list" where
  \<open>default_l3_patterns =
     [\<comment> \<open>\<^verbatim>\<open>^[A-Z][a-z]+(?:\s+[A-Za-z]+)*$\<close>\<close>
      seqs [Bol, Cls [upper_AZ], plus (Cls [lower_az]),
            star (Seq (plus space) (plus (Cls [upper_AZ, lower_az]))), Eol]]\<close>

text \<open>\<^verbatim>\<open>^[~]?(\d{4})[\*]?\s+\<close>\<close>

definition default_code_pattern :: regex where
  "default_code_pattern =
     seqs [Bol, opt (chr CHR ''~''), Grp 1 (times 4 digit), opt (chr CHR ''*''), plus space]"

text \<open>\<^verbatim>\<open>^[~]?(\d{4})[\*]?\s+.+?\.{3,}\s*[\d,]+\.\d{2}\<close>\<close>

definition default_code_with_fee_pattern :: regex where
  "default_code_with_fee_pattern =
     seqs [Bol, opt (chr CHR ''~''), Grp 1 (times 4 digit), opt (chr CHR ''*''), plus space,
           lazy_plus Dot, at_least 3 (chr CHR ''.''), star space,
           plus (Cls [Digit, Ch CHR '','']), chr CHR ''.'', times 2 digit]"

text \<open>\<^verbatim>\<open>\.{3,}\s*([\d,]+\.\d{2})\<close>\<close>

definition default_fee_pattern :: regex where
  "default_fee_pattern =
     seqs [at_least 3 (chr CHR ''.''), star space,
           Grp 1 (seqs [plus (Cls [Digit, Ch CHR '','']), chr CHR ''.'', times 2 digit])]"

definition default_skip_patterns :: "regex list" where
  \<open>default_skip_patterns =
     [\<comment> \<open>\<^verbatim>\<open>^April 1,\s*\d{4}\<close>\<close>
      seqs [Bol, lit ''April 1,'', star space, times 4 digit],
      \<comment> \<open>\<^verbatim>\<open>^[A-Z]-\d+$\<close>\<close>
      seqs [Bol, Cls [upper_AZ], chr CHR ''-'', plus digit, Eol],
      \<comment> \<open>\<^verbatim>\<open>^\d{1,3}$\<close>\<close>
      seqs [Bol, Rep True 1 (Some 3) digit, Eol],
      \<comment> \<open>\<^verbatim>\<open>^[ivxlcdm]+$\<close>\<close>
      seqs [Bol, plus (Cls [Ch CHR ''i'', Ch CHR ''v'', Ch CHR ''x'', Ch CHR ''l'', Ch CHR ''c'',
                            Ch CHR ''d'', Ch CHR ''m'']), Eol],
      \<comment> \<open>\<^verbatim>\<open>^Table of Contents\<close>\<close>
      seqs [Bol, lit ''Table of Contents''],
      \<comment> \<open>\<^verbatim>\<open>^\f\<close>\<close>
      seqs [Bol, chr (CHR 0x0C)]]\<close>

definition default_content_start_patterns :: "regex list" where
  \<open>default_content_start_patterns =
     [\<comment> \<open>\<^verbatim>\<open>RULES\s+OF\s+APPLICATION\<close>\<close>
      seqs [lit ''RULES'', plus space, lit ''OF'', plus space, lit ''APPLICATION''],
      \<comment> \<open>\<^verbatim>\<open>These benefits cannot be correctly interpreted\<close>\<close>
      lit ''These benefits cannot be correctly interpreted'']\<close>

text \<open>\<^verbatim>\<open>MarkerConfig()\<close>: the built-in configuration.\<close>

definition MarkerConfig_default :: MarkerConfig where
  "MarkerConfig_default =
     \<lparr> l1_min_font_size = 12,
       l2_min_font_size = 21 / 2,
       l3_min_font_size = 10,
       l1_patterns = default_l1_patterns,
       l2_patterns = default_l2_patterns,
       l3_patterns = default_l3_patterns,
       code_pattern = default_code_pattern,
       code_with_fee_pattern = default_code_with_fee_pattern,
       provisional_marker = ''~'',
       asterisk_marker = ''*'',
       fee_pattern = default_fee_pattern,
       skip_patterns = default_skip_patterns,
       content_start_patterns = default_content_start_patterns,
       min_line_length = 3,
       marker_format = [Text [laquo], Field Type, Text '':'', Field Value, Text [raquo]],
       code_marker_format =
         [Text (laquo # ''CODE:''), Field Prefix, Field Code, Field Suffix, Text [raquo]] \<rparr>"

section \<open>Loading the configuration\<close>






section \<open>Hierarchy detection\<close>

text \<open>\<^verbatim>\<open>TextLine\<close>: a line of text with its layout.\<close>

record TextLine =
  "text" :: string
  page_num :: int
  top_y :: rat
  left_x :: rat
  font_size :: rat
  is_bold :: bool
  line_num :: int

text \<open>The values \<^verbatim>\<open>detect_level\<close> returns besides \<^verbatim>\<open>None\<close>.\<close>

datatype level = L1 | L2 | L3 | L4 | CODE

text \<open>
  \<^verbatim>\<open>HierarchyDetector.__init__\<close> compiles the skip patterns with \<^verbatim>\<open>re.IGNORECASE\<close> and
  the code, code-with-fee and fee patterns without; the flag is given where a pattern
  is used.
\<close>

definition found :: "position option \<Rightarrow> bool" where
  "found m = (m \<noteq> None)"

definition should_skip :: "MarkerConfig \<Rightarrow> TextLine \<Rightarrow> bool" where
  "should_skip cfg line =
     (let t = strip (text line)
      in if int (length t) < min_line_length cfg then True
         else list_ex (\<lambda>pattern. found (re_search True pattern t)) (skip_patterns cfg))"

text \<open>The patterns written in \<^verbatim>\<open>_is_tariff_code\<close>.\<close>

definition standalone_code :: regex where
  \<open>standalone_code =
     \<comment> \<open>\<^verbatim>\<open>^[~]?\d{4}[\*]?\s*$\<close>\<close>
     seqs [Bol, opt (chr CHR ''~''), times 4 digit, opt (chr CHR ''*''), star space, Eol]\<close>

definition code_then_description :: regex where
  \<open>code_then_description =
     \<comment> \<open>\<^verbatim>\<open>^[~]?(\d{4})[\*]?\s+(.+)$\<close>\<close>
     seqs [Bol, opt (chr CHR ''~''), Grp 1 (times 4 digit), opt (chr CHR ''*''), plus space,
           Grp 2 (plus Dot), Eol]\<close>

definition index_entry :: regex where
  \<open>index_entry =
     \<comment> \<open>\<^verbatim>\<open>^\.{3,}\s*[A-Z]-\d+\<close>\<close>
     seqs [Bol, at_least 3 (chr CHR ''.''), star space, Cls [upper_AZ], chr CHR ''-'', plus digit]\<close>

definition page_references :: regex where
  \<open>page_references =
     \<comment> \<open>\<^verbatim>\<open>^[A-Z]-\d+(?:,\s*[A-Z]-\d+)*\s*$\<close>\<close>
     seqs [Bol, Cls [upper_AZ], chr CHR ''-'', plus digit,
           star (seqs [chr CHR '','', star space, Cls [upper_AZ], chr CHR ''-'', plus digit]),
           star space, Eol]\<close>

definition is_tariff_code :: "MarkerConfig \<Rightarrow> string \<Rightarrow> bool" where
  "is_tariff_code cfg text0 =
     (let t = strip text0
      in if found (re_match False (code_with_fee_pattern cfg) t) then True
         else if found (re_match False standalone_code t) then True
         else (case re_match False code_then_description t of
                 Some m \<Rightarrow>
                   (case group m 2 of
                      Some g2 \<Rightarrow>
                        (let remaining = strip g2
                         in if found (re_match False index_entry remaining) then False
                            else if found (re_match False page_references remaining) then False
                            else if 10 < length remaining then True
                            else False)
                    | None \<Rightarrow> False)
               | None \<Rightarrow> False))"

text \<open>The patterns written in \<^verbatim>\<open>_matches_l1\<close>.\<close>

definition specialty_heading :: regex where
  \<open>specialty_heading =
     \<comment> \<open>\<^verbatim>\<open>^[A-Z][A-Z\s\-/]+\s*\(\d{2}(?:-\d+)?\)\s*$\<close>\<close>
     seqs [Bol, Cls [upper_AZ], plus (Cls [upper_AZ, Space, Ch CHR ''-'', Ch CHR ''/'']),
           star space, chr CHR ''('', times 2 digit, opt (Seq (chr CHR ''-'') (plus digit)),
           chr CHR '')'', star space, Eol]\<close>

definition major_sections :: "regex list" where
  \<open>major_sections =
     [seqs [Bol, lit ''VISITS/EXAMINATIONS''],                       \<comment> \<open>\<^verbatim>\<open>^VISITS/EXAMINATIONS\<close>\<close>
      seqs [Bol, lit ''GENERAL'', plus space, lit ''SCHEDULE''],       \<comment> \<open>\<^verbatim>\<open>^GENERAL\s+SCHEDULE\<close>\<close>
      seqs [Bol, lit ''ANESTHESIA''],                                \<comment> \<open>\<^verbatim>\<open>^ANESTHESIA\<close>\<close>
      seqs [Bol, lit ''INTEGUMENTARY'', plus space, lit ''SYSTEM''],   \<comment> \<open>\<^verbatim>\<open>^INTEGUMENTARY\s+SYSTEM\<close>\<close>
      seqs [Bol, lit ''MUSCULOSKELETAL'', plus space, lit ''SYSTEM''], \<comment> \<open>\<^verbatim>\<open>^MUSCULOSKELETAL\s+SYSTEM\<close>\<close>
      seqs [Bol, lit ''RESPIRATORY'', plus space, lit ''SYSTEM''],     \<comment> \<open>\<^verbatim>\<open>^RESPIRATORY\s+SYSTEM\<close>\<close>
      seqs [Bol, lit ''CARDIOVASCULAR'', plus space, lit ''SYSTEM''],  \<comment> \<open>\<^verbatim>\<open>^CARDIOVASCULAR\s+SYSTEM\<close>\<close>
      seqs [Bol, lit ''DIGESTIVE'', plus space, lit ''SYSTEM''],       \<comment> \<open>\<^verbatim>\<open>^DIGESTIVE\s+SYSTEM\<close>\<close>
      seqs [Bol, lit ''URINARY'', plus space, lit ''SYSTEM''],         \<comment> \<open>\<^verbatim>\<open>^URINARY\s+SYSTEM\<close>\<close>
      seqs [Bol, lit ''NERVOUS'', plus space, lit ''SYSTEM''],         \<comment> \<open>\<^verbatim>\<open>^NERVOUS\s+SYSTEM\<close>\<close>
      seqs [Bol, lit ''ENDOCRINE'', plus space, lit ''SYSTEM''],       \<comment> \<open>\<^verbatim>\<open>^ENDOCRINE\s+SYSTEM\<close>\<close>
      seqs [Bol, lit ''MATERNITY''],                                 \<comment> \<open>\<^verbatim>\<open>^MATERNITY\<close>\<close>
      seqs [Bol, lit ''LABORATORY''],                                \<comment> \<open>\<^verbatim>\<open>^LABORATORY\<close>\<close>
      seqs [Bol, lit ''DIAGNOSTIC'', plus space, lit ''RADIOLOGICAL''],  \<comment> \<open>\<^verbatim>\<open>^DIAGNOSTIC\s+RADIOLOGICAL\<close>\<close>
      seqs [Bol, lit ''NUCLEAR'', plus space, lit ''MEDICINE''],       \<comment> \<open>\<^verbatim>\<open>^NUCLEAR\s+MEDICINE\<close>\<close>
      seqs [Bol, lit ''THERAPEUTIC'', plus space, lit ''RADIOLOGICAL''], \<comment> \<open>\<^verbatim>\<open>^THERAPEUTIC\s+RADIOLOGICAL\<close>\<close>
      seqs [Bol, lit ''RULES'', plus space, lit ''OF'', plus space, lit ''APPLICATION'']]
        \<comment> \<open>\<^verbatim>\<open>^RULES\s+OF\s+APPLICATION\<close>\<close>\<close>

definition matches_l1 :: "MarkerConfig \<Rightarrow> TextLine \<Rightarrow> bool" where
  "matches_l1 cfg line =
     (let t = strip (text line)
      in if 80 < length t then False
         else if found (re_search False (fee_pattern cfg) t) then False
         else if found (re_match False (code_pattern cfg) t) then False
         else if found (re_search False specialty_heading t) then True
         else if list_ex (\<lambda>pattern. found (re_search True pattern t)) major_sections then True
         else if l1_min_font_size cfg \<le> font_size line \<and> isupper t \<and> 15 < length t
                 \<and> length t < 60 \<and> 2 \<le> length (split t) \<and> length (split t) \<le> 6 then True
         else False)"

text \<open>The patterns written in \<^verbatim>\<open>_matches_l2\<close>.\<close>

definition l2_specific :: "regex list" where
  \<open>l2_specific =
     [\<comment> \<open>\<^verbatim>\<open>^Office,?\s*Home\s*Visits?\<close>\<close>
      seqs [Bol, lit ''Office'', opt (chr CHR '',''), star space, lit ''Home'', star space,
            lit ''Visit'', opt (chr CHR ''s'')],
      seqs [Bol, lit ''Hospital'', plus space, lit ''Care''],       \<comment> \<open>\<^verbatim>\<open>^Hospital\s+Care\<close>\<close>
      seqs [Bol, lit ''Virtual'', plus space, lit ''Visit'', opt (chr CHR ''s'')],
        \<comment> \<open>\<^verbatim>\<open>^Virtual\s+Visits?\<close>\<close>
      seqs [Bol, lit ''Chronic'', plus space, lit ''Care''],        \<comment> \<open>\<^verbatim>\<open>^Chronic\s+Care\<close>\<close>
      seqs [Bol, lit ''Concomitant'', plus space, lit ''Care''],    \<comment> \<open>\<^verbatim>\<open>^Concomitant\s+Care\<close>\<close>
      seqs [Bol, lit ''Cutaneous'', plus space, lit ''Procedure'', opt (chr CHR ''s'')],
        \<comment> \<open>\<^verbatim>\<open>^Cutaneous\s+Procedures?\<close>\<close>
      seqs [Bol, lit ''Upper'', plus space, lit ''Extremity''],     \<comment> \<open>\<^verbatim>\<open>^Upper\s+Extremity\<close>\<close>
      seqs [Bol, lit ''Lower'', plus space, lit ''Extremity''],     \<comment> \<open>\<^verbatim>\<open>^Lower\s+Extremity\<close>\<close>
      seqs [Bol, lit ''Spine''],                                  \<comment> \<open>\<^verbatim>\<open>^Spine\<close>\<close>
      seqs [Bol, lit ''Head'', plus space, lit ''and'', plus space, lit ''Neck''],
        \<comment> \<open>\<^verbatim>\<open>^Head\s+and\s+Neck\<close>\<close>
      seqs [Bol, lit ''Pelvis''],                                 \<comment> \<open>\<^verbatim>\<open>^Pelvis\<close>\<close>
      seqs [Bol, lit ''Thorax''],                                 \<comment> \<open>\<^verbatim>\<open>^Thorax\<close>\<close>
      seqs [Bol, lit ''Abdomen'']]                                \<comment> \<open>\<^verbatim>\<open>^Abdomen\<close>\<close>\<close>

text \<open>
  \<^verbatim>\<open>w[0].isupper() and not w.isupper()\<close>, for a word of \<^verbatim>\<open>text.split()\<close> (never
  empty).
\<close>

definition title_word :: "string \<Rightarrow> bool" where
  "title_word w = (case w of [] \<Rightarrow> False | c # _ \<Rightarrow> isupper [c] \<and> \<not> isupper w)"

definition matches_l2 :: "MarkerConfig \<Rightarrow> TextLine \<Rightarrow> bool" where
  "matches_l2 cfg line =
     (let t = strip (text line)
      in if 60 < length t \<or> found (re_search False (fee_pattern cfg) t) then False
         else if found (re_match False (code_pattern cfg) t) then False
         else if list_ex (\<lambda>pattern. found (re_search True pattern t)) l2_specific then True
         else if is_bold line \<and> l2_min_font_size cfg \<le> font_size line
                 \<and> 2 \<le> length (split t) \<and> length (split t) \<le> 5
                 \<and> rat_of_nat (length (split t)) * (1 / 2)
                     \<le> rat_of_nat (length (filter title_word (split t))) then True
         else False)"

text \<open>The patterns written in \<^verbatim>\<open>_matches_l3\<close>.\<close>

definition l3_specific :: "regex list" where
  \<open>l3_specific =
     [seqs [Bol, lit ''Investigation'', Eol],                      \<comment> \<open>\<^verbatim>\<open>^Investigation$\<close>\<close>
      seqs [Bol, lit ''Incision'', Eol],                           \<comment> \<open>\<^verbatim>\<open>^Incision$\<close>\<close>
      seqs [Bol, lit ''Excision'', Eol],                           \<comment> \<open>\<^verbatim>\<open>^Excision$\<close>\<close>
      seqs [Bol, lit ''Repair'', Eol],                             \<comment> \<open>\<^verbatim>\<open>^Repair$\<close>\<close>
      seqs [Bol, lit ''Revision'', plus space, lit ''and'', plus space, lit ''Repair'', Eol],
        \<comment> \<open>\<^verbatim>\<open>^Revision\s+and\s+Repair$\<close>\<close>
      seqs [Bol, lit ''Reconstruction'', Eol],                     \<comment> \<open>\<^verbatim>\<open>^Reconstruction$\<close>\<close>
      seqs [Bol, lit ''Amputation'', Eol],                         \<comment> \<open>\<^verbatim>\<open>^Amputation$\<close>\<close>
      seqs [Bol, lit ''Fracture'', opt (chr CHR ''s''), Eol],        \<comment> \<open>\<^verbatim>\<open>^Fractures?$\<close>\<close>
      seqs [Bol, lit ''Dislocation'', opt (chr CHR ''s''), Eol],     \<comment> \<open>\<^verbatim>\<open>^Dislocations?$\<close>\<close>
      seqs [Bol, lit ''Joint'', plus space, lit ''Procedure'', opt (chr CHR ''s''), Eol]]
        \<comment> \<open>\<^verbatim>\<open>^Joint\s+Procedures?$\<close>\<close>\<close>

definition matches_l3 :: "MarkerConfig \<Rightarrow> TextLine \<Rightarrow> bool" where
  "matches_l3 cfg line =
     (let t = strip (text line)
      in if 40 < length t \<or> found (re_search False (fee_pattern cfg) t) then False
         else if found (re_match False (code_pattern cfg) t) then False
         else if list_ex (\<lambda>pattern. found (re_search True pattern t)) l3_specific then True
         else False)"

text \<open>\<^verbatim>\<open>detect_level\<close>; the previous line is a parameter the body does not read.\<close>

definition detect_level :: "MarkerConfig \<Rightarrow> TextLine \<Rightarrow> TextLine option \<Rightarrow> level option" where
  "detect_level cfg line prev_line =
     (if is_tariff_code cfg (strip (text line)) then Some CODE
      else if matches_l1 cfg line then Some L1
      else if matches_l2 cfg line then Some L2
      else if matches_l3 cfg line then Some L3
      else None)"

text \<open>\<^verbatim>\<open>extract_code_info\<close>: the dictionary it returns, as a record.\<close>

record CodeInfo =
  code :: string
  is_provisional :: bool
  is_asterisked :: bool
  full_match :: string

definition standalone_code_groups :: regex where
  \<open>standalone_code_groups =
     \<comment> \<open>\<^verbatim>\<open>^(~)?(\d{4})(\*)?\s*$\<close>\<close>
     seqs [Bol, opt (Grp 1 (chr CHR ''~'')), Grp 2 (times 4 digit), opt (Grp 3 (chr CHR ''*'')),
           star space, Eol]\<close>

definition code_prefix_groups :: regex where
  \<open>code_prefix_groups =
     \<comment> \<open>\<^verbatim>\<open>^(~)?(\d{4})(\*)?\s+\<close>\<close>
     seqs [Bol, opt (Grp 1 (chr CHR ''~'')), Grp 2 (times 4 digit), opt (Grp 3 (chr CHR ''*'')),
           plus space]\<close>

text \<open>\<^verbatim>\<open>match.group(0)\<close>: what the match read of the text \<open>t\<close> it started at.\<close>

definition group0 :: "string \<Rightarrow> position \<Rightarrow> string" where
  "group0 t m = take (length t - length (rest m)) t"

definition code_info_of :: "string \<Rightarrow> position \<Rightarrow> CodeInfo option" where
  "code_info_of t m =
     (case group m 2 of
        Some c \<Rightarrow>
          Some \<lparr> code = c,
                 is_provisional = (group m 1 = Some ''~''),
                 is_asterisked = (group m 3 = Some ''*''),
                 full_match = group0 t m \<rparr>
      | None \<Rightarrow> None)"

definition extract_code_info :: "string \<Rightarrow> CodeInfo option" where
  "extract_code_info text0 =
     (let t = strip text0
      in case re_match False standalone_code_groups t of
           Some m \<Rightarrow> code_info_of t m
         | None \<Rightarrow>
             (case re_match False code_prefix_groups t of
                Some m \<Rightarrow> code_info_of t m
              | None \<Rightarrow> None))"

section \<open>Marker insertion\<close>

text \<open>The names of the levels, as the program writes them into a marker.\<close>

fun level_name :: "level \<Rightarrow> string" where
  "level_name L1 = ''L1''"
| "level_name L2 = ''L2''"
| "level_name L3 = ''L3''"
| "level_name L4 = ''L4''"
| "level_name CODE = ''CODE''"

text \<open>\<^verbatim>\<open>_format_marker\<close>: the text in upper case, without white space, and then without
  any character that is not an upper-case letter or a digit.\<close>

definition format_marker :: "MarkerConfig \<Rightarrow> string \<Rightarrow> string \<Rightarrow> string" where
  \<open>format_marker cfg level_str text0 =
     (let clean_text = re_sub False (plus space) [] (upper text0);            \<comment> \<open>\<^verbatim>\<open>\s+\<close>\<close>
          clean_text = re_sub False (NCls [upper_AZ, Rng CHR ''0'' CHR ''9'']) [] clean_text
            \<comment> \<open>\<^verbatim>\<open>[^A-Z0-9]\<close>\<close>
      in format (marker_format cfg) (\<lambda>f. case f of Type \<Rightarrow> level_str | Value \<Rightarrow> clean_text))\<close>

definition format_code_marker :: "MarkerConfig \<Rightarrow> string \<Rightarrow> bool \<Rightarrow> bool \<Rightarrow> string" where
  "format_code_marker cfg code0 provisional asterisked =
     (let prefix = (if provisional then ''~'' else []);
          suffix = (if asterisked then ''*'' else [])
      in format (code_marker_format cfg)
           (\<lambda>f. case f of Prefix \<Rightarrow> prefix | Code \<Rightarrow> code0 | Suffix \<Rightarrow> suffix))"

definition clean_header_text :: "string \<Rightarrow> string" where
  \<open>clean_header_text text0 =
     (let t = re_sub False (seqs [at_least 2 (chr CHR ''.''), star Dot, Eol]) [] text0;
            \<comment> \<open>\<^verbatim>\<open>\.{2,}.*$\<close>\<close>
          t = re_sub False (seqs [plus space, Cls [upper_AZ], chr CHR ''-'', plus digit, Eol]) [] t
            \<comment> \<open>\<^verbatim>\<open>\s+[A-Z]-\d+$\<close>\<close>
      in strip t)\<close>

text \<open>
  The variables of the loop of \<^verbatim>\<open>mark_text\<close>: the output list, the flag
  \<^verbatim>\<open>content_started\<close> and the dictionary \<^verbatim>\<open>current_hierarchy\<close>, whose keys are the
  four level names.
\<close>

record mark_state =
  "output" :: "string list"
  content_started :: bool
  current_hierarchy :: "level \<rightharpoonup> string"

definition initial_state :: mark_state where
  "initial_state =
     \<lparr> output = [], content_started = False,
       current_hierarchy = [L1 \<mapsto> [], L2 \<mapsto> [], L3 \<mapsto> [], L4 \<mapsto> []] \<rparr>"

text \<open>\<^verbatim>\<open>int(level[1])\<close> for a level name, and \<^verbatim>\<open>f'L{l}'\<close> for a number.\<close>

fun level_num :: "level \<Rightarrow> nat" where
  "level_num L1 = 1"
| "level_num L2 = 2"
| "level_num L3 = 3"
| "level_num L4 = 4"
| "level_num CODE = 0"

definition level_of_num :: "nat \<Rightarrow> level" where
  "level_of_num l = (if l = 1 then L1 else if l = 2 then L2 else if l = 3 then L3 else L4)"

text \<open>The update of \<^verbatim>\<open>current_hierarchy\<close>: the level is set, the lower levels are reset.\<close>

definition update_hierarchy :: "(level \<rightharpoonup> string) \<Rightarrow> level \<Rightarrow> string \<Rightarrow> (level \<rightharpoonup> string)" where
  "update_hierarchy h lv header_text =
     fold (\<lambda>l h'. h'(level_of_num l \<mapsto> [])) [level_num lv + 1 ..< 5] (h(lv \<mapsto> header_text))"

text \<open>
  The inner loop of \<^verbatim>\<open>mark_text\<close> over the content-start patterns: one of them is
  found in the text of the line, searched as it is (not stripped) and without
  \<^verbatim>\<open>re.IGNORECASE\<close>.
\<close>

definition content_starts :: "MarkerConfig \<Rightarrow> TextLine \<Rightarrow> bool" where
  "content_starts cfg line =
     list_ex (\<lambda>pattern. found (re_search False pattern (text line))) (content_start_patterns cfg)"

text \<open>One round of the loop of \<^verbatim>\<open>mark_text\<close>, for the line \<open>line\<close> after \<open>prev_line\<close>.\<close>

definition mark_line :: "MarkerConfig \<Rightarrow> TextLine option \<Rightarrow> TextLine \<Rightarrow> mark_state \<Rightarrow> mark_state" where
  "mark_line cfg prev_line line st =
     (if \<not> content_started st then
        (if content_starts cfg line
         then st\<lparr> content_started := True,
                  output := output st @ [format_marker cfg ''L1'' ''RULESOFAPPLICATION'', text line] \<rparr>
         else st\<lparr> output := output st @ [text line] \<rparr>)
      else if should_skip cfg line then st\<lparr> output := output st @ [text line] \<rparr>
      else
        (case detect_level cfg line prev_line of
           Some CODE \<Rightarrow>
             (case extract_code_info (text line) of
                Some code_info \<Rightarrow>
                  st\<lparr> output := output st
                        @ [format_code_marker cfg (code code_info) (is_provisional code_info)
                             (is_asterisked code_info),
                           text line] \<rparr>
              | None \<Rightarrow> st\<lparr> output := output st @ [text line] \<rparr>)
         | Some lv \<Rightarrow>
             (let header_text = clean_header_text (text line)
              in st\<lparr> output := output st @ [format_marker cfg (level_name lv) header_text, text line],
                     current_hierarchy := update_hierarchy (current_hierarchy st) lv header_text \<rparr>)
         | None \<Rightarrow> st\<lparr> output := output st @ [text line] \<rparr>))"

fun mark_loop :: "MarkerConfig \<Rightarrow> TextLine option \<Rightarrow> TextLine list \<Rightarrow> mark_state \<Rightarrow> mark_state" where
  "mark_loop cfg prev_line [] st = st"
| "mark_loop cfg prev_line (line # lines) st =
     mark_loop cfg (Some line) lines (mark_line cfg prev_line line st)"

definition mark_text :: "MarkerConfig \<Rightarrow> TextLine list \<Rightarrow> string list" where
  "mark_text cfg lines = output (mark_loop cfg None lines initial_state)"

section \<open>Statistics\<close>

text \<open>The dictionary of \<^verbatim>\<open>_calculate_stats\<close>, one field for each of its keys.\<close>

record stats =
  n_L1 :: nat
  n_L2 :: nat
  n_L3 :: nat
  n_L4 :: nat
  n_CODE :: nat
  n_provisional :: nat
  n_asterisked :: nat

definition count_line :: "string \<Rightarrow> stats \<Rightarrow> stats" where
  "count_line line st =
     (if contains (laquo # ''L1:'') line then st\<lparr> n_L1 := n_L1 st + 1 \<rparr>
      else if contains (laquo # ''L2:'') line then st\<lparr> n_L2 := n_L2 st + 1 \<rparr>
      else if contains (laquo # ''L3:'') line then st\<lparr> n_L3 := n_L3 st + 1 \<rparr>
      else if contains (laquo # ''L4:'') line then st\<lparr> n_L4 := n_L4 st + 1 \<rparr>
      else if contains (laquo # ''CODE:'') line then
        (let st1 = st\<lparr> n_CODE := n_CODE st + 1 \<rparr>;
             st2 = (if contains (laquo # ''CODE:~'') line
                    then st1\<lparr> n_provisional := n_provisional st1 + 1 \<rparr> else st1)
         in if contains (''*'' @ [raquo]) line
            then st2\<lparr> n_asterisked := n_asterisked st2 + 1 \<rparr> else st2)
      else st)"

definition calculate_stats :: "string list \<Rightarrow> MarkerConfig \<Rightarrow> stats" where
  "calculate_stats lines cfg =
     fold count_line lines
       \<lparr> n_L1 = 0, n_L2 = 0, n_L3 = 0, n_L4 = 0, n_CODE = 0, n_provisional = 0, n_asterisked = 0 \<rparr>"

section \<open>The pass without the hierarchy dictionary\<close>

text \<open>
  \<^verbatim>\<open>mark_text\<close> with the initialisation and the updates of \<^verbatim>\<open>current_hierarchy\<close> left
  out: the loop keeps the output list and the flag \<^verbatim>\<open>content_started\<close> only. This
  variant is not in the source; it is what the pass is compared with below.
\<close>

definition mark_line_without_hierarchy ::
    "MarkerConfig \<Rightarrow> TextLine option \<Rightarrow> TextLine \<Rightarrow> string list \<times> bool \<Rightarrow> string list \<times> bool" where
  "mark_line_without_hierarchy cfg prev_line line st =
     (case st of (out, started) \<Rightarrow>
        if \<not> started then
          (if content_starts cfg line
           then (out @ [format_marker cfg ''L1'' ''RULESOFAPPLICATION'', text line], True)
           else (out @ [text line], started))
        else if should_skip cfg line then (out @ [text line], started)
        else
          (case detect_level cfg line prev_line of
             Some CODE \<Rightarrow>
               (case extract_code_info (text line) of
                  Some code_info \<Rightarrow>
                    (out @ [format_code_marker cfg (code code_info) (is_provisional code_info)
                              (is_asterisked code_info),
                            text line], started)
                | None \<Rightarrow> (out @ [text line], started))
           | Some lv \<Rightarrow>
               (let header_text = clean_header_text (text line)
                in (out @ [format_marker cfg (level_name lv) header_text, text line], started))
           | None \<Rightarrow> (out @ [text line], started)))"

fun mark_loop_without_hierarchy ::
    "MarkerConfig \<Rightarrow> TextLine option \<Rightarrow> TextLine list \<Rightarrow> string list \<times> bool \<Rightarrow> string list \<times> bool" where
  "mark_loop_without_hierarchy cfg prev_line [] st = st"
| "mark_loop_without_hierarchy cfg prev_line (line # lines) st =
     mark_loop_without_hierarchy cfg (Some line) lines
       (mark_line_without_hierarchy cfg prev_line line st)"

definition mark_text_without_hierarchy :: "MarkerConfig \<Rightarrow> TextLine list \<Rightarrow> string list" where
  "mark_text_without_hierarchy cfg lines =
     fst (mark_loop_without_hierarchy cfg None lines ([], False))"

section \<open>The end of \<^verbatim>\<open>main\<close>\<close>



section \<open>Lines and states the examples use\<close>

definition body_line :: "string \<Rightarrow> TextLine" where
  "body_line s =
     \<lparr> text = s, page_num = 1, top_y = 0, left_x = 0, font_size = 10, is_bold = False,
       line_num = 1 \<rparr>"

definition heading_line :: "string \<Rightarrow> TextLine" where
  "heading_line s =
     \<lparr> text = s, page_num = 1, top_y = 0, left_x = 0, font_size = 14, is_bold = True,
       line_num = 1 \<rparr>"

text \<open>The state of the loop once the content has started, before any heading.\<close>

definition active_state :: mark_state where
  "active_state = initial_state \<lparr> content_started := True \<rparr>"

text \<open>The default configuration with a code pattern that matches a line starting with \<^verbatim>\<open>#\<close>.\<close>

definition hash_code_config :: MarkerConfig where
  "hash_code_config = MarkerConfig_default \<lparr> code_pattern := Seq Bol (chr CHR ''#'') \<rparr>"

text \<open>
  The default configuration with the one content-start pattern
  \<^verbatim>\<open>^RULES\s+OF\s+APPLICATION\<close>, anchored as the patterns of the section names are.
\<close>

definition anchored_start_config :: MarkerConfig where
  "anchored_start_config =
     MarkerConfig_default
       \<lparr> content_start_patterns :=
           [seqs [Bol, lit ''RULES'', plus space, lit ''OF'', plus space, lit ''APPLICATION'']] \<rparr>"

text \<open>The skip pattern \<^verbatim>\<open>^\d{1,3}$\<close> of the default configuration.\<close>

definition page_number_pattern :: regex where
  "page_number_pattern = seqs [Bol, Rep True 1 (Some 3) digit, Eol]"

text \<open>
  The remainder that is solely a dotted leader followed by page references, as a
  pattern: \<^verbatim>\<open>^\.{3,}\s*[A-Z]-\d+(?:,\s*[A-Z]-\d+)*\s*$\<close>. It is not in the source, whose
  pattern \<open>index_entry\<close> asks only for such a beginning; the two are compared below.
\<close>

definition solely_leader_and_references :: regex where
  "solely_leader_and_references =
     seqs [Bol, at_least 3 (chr CHR ''.''), star space, Cls [upper_AZ], chr CHR ''-'', plus digit,
           star (seqs [chr CHR '','', star space, Cls [upper_AZ], chr CHR ''-'', plus digit]),
           star space, Eol]"

text \<open>A line the statistics count as a code marker: none of the four level prefixes is in
  it, and the code prefix is.\<close>

definition counted_as_code :: "string \<Rightarrow> bool" where
  "counted_as_code line =
     (\<not> contains (laquo # ''L1:'') line \<and> \<not> contains (laquo # ''L2:'') line
      \<and> \<not> contains (laquo # ''L3:'') line \<and> \<not> contains (laquo # ''L4:'') line
      \<and> contains (laquo # ''CODE:'') line)"

section \<open>Properties of patterns and matchers used in the proofs\<close>

text \<open>A pattern without \<^verbatim>\<open>^\<close>; a pattern with its groups removed; two matchers that
  leave the same texts to be read from positions with the same text; a matcher that
  only reads forward.\<close>

primrec bol_free :: "regex \<Rightarrow> bool" where
  "bol_free (Cls as) = True"
| "bol_free (NCls as) = True"
| "bol_free Dot = True"
| "bol_free Bol = False"
| "bol_free Eol = True"
| "bol_free Eps = True"
| "bol_free (Seq r1 r2) = (bol_free r1 \<and> bol_free r2)"
| "bol_free (Alt r1 r2) = (bol_free r1 \<and> bol_free r2)"
| "bol_free (Rep greedy lo hi r) = bol_free r"
| "bol_free (Grp n r) = bol_free r"

primrec erase :: "regex \<Rightarrow> regex" where
  "erase (Cls as) = Cls as"
| "erase (NCls as) = NCls as"
| "erase Dot = Dot"
| "erase Bol = Bol"
| "erase Eol = Eol"
| "erase Eps = Eps"
| "erase (Seq r1 r2) = Seq (erase r1) (erase r2)"
| "erase (Alt r1 r2) = Alt (erase r1) (erase r2)"
| "erase (Rep greedy lo hi r) = Rep greedy lo hi (erase r)"
| "erase (Grp n r) = erase r"

definition same_rests :: "(position \<Rightarrow> position list) \<Rightarrow> (position \<Rightarrow> position list) \<Rightarrow> bool" where
  "same_rests m m' = (\<forall>st1 st2. rest st1 = rest st2 \<longrightarrow> map rest (m st1) = map rest (m' st2))"

definition reads :: "(position \<Rightarrow> position list) \<Rightarrow> bool" where
  "reads m = (\<forall>st st'. st' \<in> set (m st) \<longrightarrow> (\<exists>u. rest st = u @ rest st'))"

section \<open>The pass only inserts\<close>

lemma mark_line_output:
  "\<exists>m. length m \<le> 1 \<and> output (mark_line cfg prev_line line st) = output st @ m @ [text line]"
proof -
  have "output (mark_line cfg prev_line line st) = output st @ [text line]
      \<or> (\<exists>x. output (mark_line cfg prev_line line st) = output st @ [x, text line])"
    by (simp add: mark_line_def Let_def split: option.split level.split)
  then show ?thesis
  proof
    assume "output (mark_line cfg prev_line line st) = output st @ [text line]"
    then have "length ([]::string list) \<le> 1
        \<and> output (mark_line cfg prev_line line st) = output st @ [] @ [text line]"
      by simp
    then show ?thesis by blast
  next
    assume "\<exists>x. output (mark_line cfg prev_line line st) = output st @ [x, text line]"
    then obtain x where "output (mark_line cfg prev_line line st) = output st @ [x, text line]" ..
    then have "length [x] \<le> 1
        \<and> output (mark_line cfg prev_line line st) = output st @ [x] @ [text line]"
      by simp
    then show ?thesis by blast
  qed
qed

lemma mark_loop_output:
  "\<exists>ms. length ms = length lines \<and> list_all (\<lambda>m. length m \<le> 1) ms
     \<and> output (mark_loop cfg prev_line lines st)
         = output st @ concat (map (\<lambda>(m, line). m @ [text line]) (zip ms lines))"
proof (induction lines arbitrary: prev_line st)
  case Nil
  then show ?case by simp
next
  case (Cons line lines)
  obtain m where m: "length m \<le> 1"
      "output (mark_line cfg prev_line line st) = output st @ m @ [text line]"
    using mark_line_output by blast
  obtain ms where ms: "length ms = length lines" "list_all (\<lambda>m. length m \<le> 1) ms"
      "output (mark_loop cfg (Some line) lines (mark_line cfg prev_line line st))
         = output (mark_line cfg prev_line line st)
           @ concat (map (\<lambda>(m, line). m @ [text line]) (zip ms lines))"
    using Cons.IH by blast
  have "length (m # ms) = length (line # lines) \<and> list_all (\<lambda>m. length m \<le> 1) (m # ms)
     \<and> output (mark_loop cfg prev_line (line # lines) st)
         = output st @ concat (map (\<lambda>(m, line). m @ [text line]) (zip (m # ms) (line # lines)))"
    using m ms by simp
  then show ?case by blast
qed

lemma length_interleaved:
  fixes ms :: "string list list" and lines :: "TextLine list"
  shows "length ms = length lines \<Longrightarrow>
    length lines \<le> length (concat (map (\<lambda>(m, line). m @ [text line]) (zip ms lines)))"
  by (induction ms lines rule: list_induct2) auto

text \<open>
  C1. For every list of lines and every configuration, the output of \<open>mark_text\<close> is
  the texts of the lines, each exactly once, unchanged and in their order, each with
  nothing or one marker line just before it: there is a list \<open>ms\<close>, one entry for each
  line and each entry of length at most one, such that the output is the lines' texts
  each preceded by its entry. The output is at least as long as the input.
\<close>

theorem mark_text_inserts_only:
  "\<exists>ms. length ms = length lines \<and> list_all (\<lambda>m. length m \<le> 1) ms
     \<and> mark_text cfg lines = concat (map (\<lambda>(m, line). m @ [text line]) (zip ms lines))
     \<and> length lines \<le> length (mark_text cfg lines)"
proof -
  obtain ms where ms: "length ms = length lines" "list_all (\<lambda>m. length m \<le> 1) ms"
      "mark_text cfg lines = concat (map (\<lambda>(m, line). m @ [text line]) (zip ms lines))"
    using mark_loop_output [of lines cfg None initial_state]
    by (auto simp: mark_text_def initial_state_def)
  with length_interleaved [of ms lines] show ?thesis by auto
qed

section \<open>Stripping\<close>

lemma lstrip_id: "s = [] \<or> \<not> isspace (hd s) \<Longrightarrow> lstrip s = s"
  by (cases s) (auto simp: lstrip_def)

lemma rstrip_id: "s = [] \<or> \<not> isspace (last s) \<Longrightarrow> rstrip s = s"
proof (cases "s = []")
  case True
  then show ?thesis by (simp add: rstrip_def)
next
  case False
  assume "s = [] \<or> \<not> isspace (last s)"
  with False have "\<not> isspace (hd (rev s))" by (simp add: hd_rev)
  with False have "dropWhile isspace (rev s) = rev s" by (cases "rev s") auto
  then show ?thesis by (simp add: rstrip_def)
qed

lemma rstrip_prefix: "\<exists>w. s = rstrip s @ w \<and> (\<forall>c \<in> set w. isspace c)"
proof -
  have "rev s = takeWhile isspace (rev s) @ dropWhile isspace (rev s)" by simp
  then have "s = rev (dropWhile isspace (rev s)) @ rev (takeWhile isspace (rev s))"
    by (metis rev_append rev_rev_ident)
  moreover have "\<forall>c \<in> set (rev (takeWhile isspace (rev s))). isspace c"
    by (auto dest: set_takeWhileD)
  ultimately show ?thesis unfolding rstrip_def by blast
qed

lemma rstrip_last: "rstrip s \<noteq> [] \<Longrightarrow> \<not> isspace (last (rstrip s))"
  unfolding rstrip_def by (simp add: last_rev hd_dropWhile)

lemma lstrip_hd: "lstrip s \<noteq> [] \<Longrightarrow> \<not> isspace (hd (lstrip s))"
  unfolding lstrip_def by (simp add: hd_dropWhile)

lemma strip_hd: "strip s \<noteq> [] \<Longrightarrow> \<not> isspace (hd (strip s))"
proof -
  assume ne: "strip s \<noteq> []"
  obtain w where w: "lstrip s = rstrip (lstrip s) @ w" using rstrip_prefix by blast
  from ne have "hd (lstrip s) = hd (strip s)"
    unfolding strip_def using w by (metis hd_append2)
  moreover from ne w have "lstrip s \<noteq> []" unfolding strip_def by auto
  ultimately show ?thesis using lstrip_hd by metis
qed

lemma strip_last: "strip s \<noteq> [] \<Longrightarrow> \<not> isspace (last (strip s))"
  unfolding strip_def by (rule rstrip_last)

lemma strip_id: "s = [] \<or> (\<not> isspace (hd s) \<and> \<not> isspace (last s)) \<Longrightarrow> strip s = s"
  unfolding strip_def by (auto simp: lstrip_id rstrip_id)

lemma strip_idem: "strip (strip s) = strip s"
  by (rule strip_id) (use strip_hd strip_last in blast)


section \<open>The hierarchy dictionary is never read\<close>

lemma mark_line_forgets_hierarchy:
  "mark_line_without_hierarchy cfg prev_line line (output st, content_started st)
     = (output (mark_line cfg prev_line line st), content_started (mark_line cfg prev_line line st))"
  by (simp add: mark_line_without_hierarchy_def mark_line_def Let_def
      split: option.split level.split)

lemma mark_loop_forgets_hierarchy:
  "mark_loop_without_hierarchy cfg prev_line lines (output st, content_started st)
     = (output (mark_loop cfg prev_line lines st), content_started (mark_loop cfg prev_line lines st))"
proof (induction lines arbitrary: prev_line st)
  case Nil
  show ?case by simp
next
  case (Cons line lines)
  show ?case
    by (simp add: mark_line_forgets_hierarchy Cons.IH)
qed


text \<open>
  C10. The dictionary \<^verbatim>\<open>current_hierarchy\<close> is written and never read: for every list of
  lines and every configuration, the pass without the dictionary gives the same output
  list as \<open>mark_text\<close>.
\<close>

theorem hierarchy_is_write_only:
  "mark_text_without_hierarchy cfg lines = mark_text cfg lines"
  using mark_loop_forgets_hierarchy [of cfg None lines initial_state]
  by (simp add: mark_text_without_hierarchy_def mark_text_def initial_state_def)


section \<open>The order of the tests\<close>

text \<open>
  C2. For every configuration, the default one among them, and every line,
  \<open>detect_level\<close> gives the first of CODE, L1, L2, L3 whose test holds, and \<open>None\<close>
  when none holds: a line that passes the tariff-code test is CODE whatever the L1 test
  says. It never gives L4.
\<close>

theorem detect_level_priority:
  "(is_tariff_code cfg (text line) \<longrightarrow> detect_level cfg line prev_line = Some CODE)
   \<and> (\<not> is_tariff_code cfg (text line) \<and> matches_l1 cfg line
        \<longrightarrow> detect_level cfg line prev_line = Some L1)
   \<and> (\<not> is_tariff_code cfg (text line) \<and> \<not> matches_l1 cfg line \<and> matches_l2 cfg line
        \<longrightarrow> detect_level cfg line prev_line = Some L2)
   \<and> (\<not> is_tariff_code cfg (text line) \<and> \<not> matches_l1 cfg line \<and> \<not> matches_l2 cfg line
         \<and> matches_l3 cfg line
        \<longrightarrow> detect_level cfg line prev_line = Some L3)
   \<and> (\<not> is_tariff_code cfg (text line) \<and> \<not> matches_l1 cfg line \<and> \<not> matches_l2 cfg line
         \<and> \<not> matches_l3 cfg line
        \<longrightarrow> detect_level cfg line prev_line = None)
   \<and> detect_level cfg line prev_line \<noteq> Some L4"
proof -
  have "is_tariff_code cfg (strip (text line)) = is_tariff_code cfg (text line)"
    by (simp add: is_tariff_code_def strip_idem)
  then show ?thesis
    by (simp add: detect_level_def)
qed


theorem detect_level_priority_witness:
  "is_tariff_code MarkerConfig_default (text (body_line ''~0171*''))
   \<and> detect_level MarkerConfig_default (body_line ''~0171*'') None = Some CODE
   \<and> is_tariff_code hash_code_config (text (heading_line ''8540 MATERNITY CARE PLAN''))
   \<and> matches_l1 hash_code_config (heading_line ''8540 MATERNITY CARE PLAN'')
   \<and> detect_level hash_code_config (heading_line ''8540 MATERNITY CARE PLAN'') None = Some CODE
   \<and> \<not> is_tariff_code MarkerConfig_default (text (body_line ''MATERNITY''))
   \<and> matches_l1 MarkerConfig_default (body_line ''MATERNITY'')
   \<and> detect_level MarkerConfig_default (body_line ''MATERNITY'') None = Some L1
   \<and> \<not> is_tariff_code MarkerConfig_default (text (body_line ''Spine''))
   \<and> \<not> matches_l1 MarkerConfig_default (body_line ''Spine'')
   \<and> matches_l2 MarkerConfig_default (body_line ''Spine'')
   \<and> detect_level MarkerConfig_default (body_line ''Spine'') None = Some L2
   \<and> \<not> is_tariff_code MarkerConfig_default (text (body_line ''Repair''))
   \<and> \<not> matches_l1 MarkerConfig_default (body_line ''Repair'')
   \<and> \<not> matches_l2 MarkerConfig_default (body_line ''Repair'')
   \<and> matches_l3 MarkerConfig_default (body_line ''Repair'')
   \<and> detect_level MarkerConfig_default (body_line ''Repair'') None = Some L3
   \<and> \<not> is_tariff_code MarkerConfig_default (text (body_line ''plain text''))
   \<and> \<not> matches_l1 MarkerConfig_default (body_line ''plain text'')
   \<and> \<not> matches_l2 MarkerConfig_default (body_line ''plain text'')
   \<and> \<not> matches_l3 MarkerConfig_default (body_line ''plain text'')
   \<and> detect_level MarkerConfig_default (body_line ''plain text'') None = None"
proof -
  have 1: "is_tariff_code MarkerConfig_default (text (body_line ''~0171*''))"
    by code_simp
  have 2: "is_tariff_code hash_code_config (text (heading_line ''8540 MATERNITY CARE PLAN''))
      \<and> matches_l1 hash_code_config (heading_line ''8540 MATERNITY CARE PLAN'')"
    by code_simp
  have 3: "\<not> is_tariff_code MarkerConfig_default (text (body_line ''MATERNITY''))
      \<and> matches_l1 MarkerConfig_default (body_line ''MATERNITY'')"
    by code_simp
  have 4: "\<not> is_tariff_code MarkerConfig_default (text (body_line ''Spine''))
      \<and> \<not> matches_l1 MarkerConfig_default (body_line ''Spine'')
      \<and> matches_l2 MarkerConfig_default (body_line ''Spine'')"
    by code_simp
  have 5: "\<not> is_tariff_code MarkerConfig_default (text (body_line ''Repair''))
      \<and> \<not> matches_l1 MarkerConfig_default (body_line ''Repair'')
      \<and> \<not> matches_l2 MarkerConfig_default (body_line ''Repair'')
      \<and> matches_l3 MarkerConfig_default (body_line ''Repair'')"
    by code_simp
  have 6: "\<not> is_tariff_code MarkerConfig_default (text (body_line ''plain text''))
      \<and> \<not> matches_l1 MarkerConfig_default (body_line ''plain text'')
      \<and> \<not> matches_l2 MarkerConfig_default (body_line ''plain text'')
      \<and> \<not> matches_l3 MarkerConfig_default (body_line ''plain text'')"
    by code_simp
  show ?thesis
    using 1 2 3 4 5 6
      detect_level_priority [of MarkerConfig_default "body_line ''~0171*''" None]
      detect_level_priority [of hash_code_config "heading_line ''8540 MATERNITY CARE PLAN''" None]
      detect_level_priority [of MarkerConfig_default "body_line ''MATERNITY''" None]
      detect_level_priority [of MarkerConfig_default "body_line ''Spine''" None]
      detect_level_priority [of MarkerConfig_default "body_line ''Repair''" None]
      detect_level_priority [of MarkerConfig_default "body_line ''plain text''" None]
    by simp
qed

section \<open>Binding a level resets the lower ones\<close>

lemma update_hierarchy_values:
  "lv \<noteq> CODE \<Longrightarrow>
     update_hierarchy h lv v lv = Some v
     \<and> (\<forall>k. level_num lv < level_num k \<longrightarrow> update_hierarchy h lv v k = Some [])
     \<and> (\<forall>k. level_num k < level_num lv \<longrightarrow> update_hierarchy h lv v k = h k)"
proof -
  assume "lv \<noteq> CODE"
  have u: "[Suc (Suc 0)..<5] = [2, 3, 4]" "[3..<5] = [3, 4]" "[4..<5] = [4]" "[5..<5] = []"
    by (simp_all add: upt_rec)
  have "update_hierarchy h lv v lv = Some v" using \<open>lv \<noteq> CODE\<close>
    by (cases lv) (simp_all add: update_hierarchy_def level_of_num_def u)
  moreover have "level_num lv < level_num k \<Longrightarrow> update_hierarchy h lv v k = Some []" for k
    using \<open>lv \<noteq> CODE\<close>
    by (cases lv; cases k) (simp_all add: update_hierarchy_def level_of_num_def u)
  moreover have "level_num k < level_num lv \<Longrightarrow> update_hierarchy h lv v k = h k" for k
    using \<open>lv \<noteq> CODE\<close>
    by (cases lv; cases k) (simp_all add: update_hierarchy_def level_of_num_def u)
  ultimately show ?thesis by blast
qed

lemma mark_line_binds:
  "content_started st \<Longrightarrow> \<not> should_skip cfg line \<Longrightarrow> detect_level cfg line prev_line = Some lv
    \<Longrightarrow> lv \<noteq> CODE
    \<Longrightarrow> current_hierarchy (mark_line cfg prev_line line st)
          = update_hierarchy (current_hierarchy st) lv (clean_header_text (text line))
        \<and> content_started (mark_line cfg prev_line line st)"
  by (cases lv) (simp_all add: mark_line_def Let_def)


text \<open>
  C5. In the pass, once the content has started, a line that is not skipped and is
  classified as one of the levels L1..L4 binds its cleaned header text to that level
  and clears every lower level; the levels above keep their values. So three such
  lines classified L1, L2, L1 leave, after the second, the first line's value at L1 and
  the second's at L2, and after the third, the third line's value at L1 and nothing at
  L2, L3 and L4.
\<close>

theorem hierarchy_binding:
  "(content_started st \<and> \<not> should_skip cfg line \<and> detect_level cfg line prev_line = Some lv
      \<and> lv \<noteq> CODE
     \<longrightarrow> current_hierarchy (mark_line cfg prev_line line st) lv
           = Some (clean_header_text (text line))
         \<and> (\<forall>k. level_num lv < level_num k
               \<longrightarrow> current_hierarchy (mark_line cfg prev_line line st) k = Some [])
         \<and> (\<forall>k. level_num k < level_num lv
               \<longrightarrow> current_hierarchy (mark_line cfg prev_line line st) k = current_hierarchy st k))
   \<and> (content_started st
       \<and> \<not> should_skip cfg a \<and> detect_level cfg a prev_line = Some L1
       \<and> \<not> should_skip cfg b \<and> detect_level cfg b (Some a) = Some L2
       \<and> \<not> should_skip cfg c \<and> detect_level cfg c (Some b) = Some L1
     \<longrightarrow> current_hierarchy (mark_loop cfg prev_line [a, b] st) L1 = Some (clean_header_text (text a))
         \<and> current_hierarchy (mark_loop cfg prev_line [a, b] st) L2 = Some (clean_header_text (text b))
         \<and> current_hierarchy (mark_loop cfg prev_line [a, b, c] st) L1 = Some (clean_header_text (text c))
         \<and> current_hierarchy (mark_loop cfg prev_line [a, b, c] st) L2 = Some []
         \<and> current_hierarchy (mark_loop cfg prev_line [a, b, c] st) L3 = Some []
         \<and> current_hierarchy (mark_loop cfg prev_line [a, b, c] st) L4 = Some [])"
proof (intro conjI impI)
  assume h: "content_started st \<and> \<not> should_skip cfg line
      \<and> detect_level cfg line prev_line = Some lv \<and> lv \<noteq> CODE"
  then have e: "current_hierarchy (mark_line cfg prev_line line st)
      = update_hierarchy (current_hierarchy st) lv (clean_header_text (text line))"
    using mark_line_binds by blast
  from h have lv: "lv \<noteq> CODE" by simp
  show "current_hierarchy (mark_line cfg prev_line line st) lv = Some (clean_header_text (text line))"
    using update_hierarchy_values [OF lv] e by simp
  show "\<forall>k. level_num lv < level_num k
      \<longrightarrow> current_hierarchy (mark_line cfg prev_line line st) k = Some []"
    using update_hierarchy_values [OF lv] e by simp
  show "\<forall>k. level_num k < level_num lv
      \<longrightarrow> current_hierarchy (mark_line cfg prev_line line st) k = current_hierarchy st k"
    using update_hierarchy_values [OF lv] e by simp
next
  assume h: "content_started st
       \<and> \<not> should_skip cfg a \<and> detect_level cfg a prev_line = Some L1
       \<and> \<not> should_skip cfg b \<and> detect_level cfg b (Some a) = Some L2
       \<and> \<not> should_skip cfg c \<and> detect_level cfg c (Some b) = Some L1"
  define s1 where "s1 = mark_line cfg prev_line a st"
  define s2 where "s2 = mark_line cfg (Some a) b s1"
  define s3 where "s3 = mark_line cfg (Some b) c s2"
  have l2: "mark_loop cfg prev_line [a, b] st = s2" and l3: "mark_loop cfg prev_line [a, b, c] st = s3"
    by (simp_all add: s1_def s2_def s3_def)
  have 1: "current_hierarchy s1 = update_hierarchy (current_hierarchy st) L1 (clean_header_text (text a))"
      "content_started s1"
    using h mark_line_binds [of st cfg a prev_line L1] by (simp_all add: s1_def)
  have 2: "current_hierarchy s2 = update_hierarchy (current_hierarchy s1) L2 (clean_header_text (text b))"
      "content_started s2"
    using h 1 mark_line_binds [of s1 cfg b "Some a" L2] by (simp_all add: s2_def)
  have 3: "current_hierarchy s3 = update_hierarchy (current_hierarchy s2) L1 (clean_header_text (text c))"
    using h 2 mark_line_binds [of s2 cfg c "Some b" L1] by (simp_all add: s3_def)
  have v1: "current_hierarchy s1 L1 = Some (clean_header_text (text a))"
    using update_hierarchy_values [of L1 "current_hierarchy st"] 1 by simp
  show "current_hierarchy (mark_loop cfg prev_line [a, b] st) L1 = Some (clean_header_text (text a))"
    using update_hierarchy_values [of L2 "current_hierarchy s1" "clean_header_text (text b)"] 2 v1 l2
    by simp
  show "current_hierarchy (mark_loop cfg prev_line [a, b] st) L2 = Some (clean_header_text (text b))"
    using update_hierarchy_values [of L2 "current_hierarchy s1" "clean_header_text (text b)"] 2 l2
    by simp
  show "current_hierarchy (mark_loop cfg prev_line [a, b, c] st) L1 = Some (clean_header_text (text c))"
    using update_hierarchy_values [of L1 "current_hierarchy s2" "clean_header_text (text c)"] 3 l3
    by simp
  show "current_hierarchy (mark_loop cfg prev_line [a, b, c] st) L2 = Some []"
    using update_hierarchy_values [of L1 "current_hierarchy s2" "clean_header_text (text c)"] 3 l3
    by simp
  show "current_hierarchy (mark_loop cfg prev_line [a, b, c] st) L3 = Some []"
    using update_hierarchy_values [of L1 "current_hierarchy s2" "clean_header_text (text c)"] 3 l3
    by simp
  show "current_hierarchy (mark_loop cfg prev_line [a, b, c] st) L4 = Some []"
    using update_hierarchy_values [of L1 "current_hierarchy s2" "clean_header_text (text c)"] 3 l3
    by simp
qed


theorem hierarchy_binding_witness:
  "content_started active_state
   \<and> \<not> should_skip MarkerConfig_default (body_line ''MATERNITY'')
   \<and> detect_level MarkerConfig_default (body_line ''MATERNITY'') None = Some L1
   \<and> \<not> should_skip MarkerConfig_default (body_line ''Spine ... B-2'')
   \<and> detect_level MarkerConfig_default (body_line ''Spine ... B-2'') (Some (body_line ''MATERNITY''))
       = Some L2
   \<and> \<not> should_skip MarkerConfig_default (body_line ''ANESTHESIA'')
   \<and> detect_level MarkerConfig_default (body_line ''ANESTHESIA'') (Some (body_line ''Spine ... B-2''))
       = Some L1
   \<and> current_hierarchy (mark_line MarkerConfig_default None (body_line ''MATERNITY'') active_state) L1
       = Some ''MATERNITY''
   \<and> current_hierarchy
         (mark_loop MarkerConfig_default None [body_line ''MATERNITY'', body_line ''Spine ... B-2'']
            active_state) L1 = Some ''MATERNITY''
   \<and> current_hierarchy
         (mark_loop MarkerConfig_default None [body_line ''MATERNITY'', body_line ''Spine ... B-2'']
            active_state) L2 = Some ''Spine''
   \<and> current_hierarchy
         (mark_loop MarkerConfig_default None
            [body_line ''MATERNITY'', body_line ''Spine ... B-2'', body_line ''ANESTHESIA'']
            active_state) L1 = Some ''ANESTHESIA''
   \<and> current_hierarchy
         (mark_loop MarkerConfig_default None
            [body_line ''MATERNITY'', body_line ''Spine ... B-2'', body_line ''ANESTHESIA'']
            active_state) L2 = Some []"
proof -
  have 0: "content_started active_state"
    by (simp add: active_state_def)
  have 1: "\<not> should_skip MarkerConfig_default (body_line ''MATERNITY'')
      \<and> detect_level MarkerConfig_default (body_line ''MATERNITY'') None = Some L1"
    by code_simp
  have 2: "\<not> should_skip MarkerConfig_default (body_line ''Spine ... B-2'')
      \<and> detect_level MarkerConfig_default (body_line ''Spine ... B-2'')
            (Some (body_line ''MATERNITY'')) = Some L2"
    by code_simp
  have 3: "\<not> should_skip MarkerConfig_default (body_line ''ANESTHESIA'')
      \<and> detect_level MarkerConfig_default (body_line ''ANESTHESIA'')
            (Some (body_line ''Spine ... B-2'')) = Some L1"
    by code_simp
  have 4: "clean_header_text (text (body_line ''MATERNITY'')) = ''MATERNITY''
      \<and> clean_header_text (text (body_line ''Spine ... B-2'')) = ''Spine''
      \<and> clean_header_text (text (body_line ''ANESTHESIA'')) = ''ANESTHESIA''"
    by code_simp
  have 5: "L1 \<noteq> CODE"
    by simp
  show ?thesis
    using 0 1 2 3 4 5
      hierarchy_binding [of active_state MarkerConfig_default "body_line ''MATERNITY''" None L1
        "body_line ''MATERNITY''" "body_line ''Spine ... B-2''" "body_line ''ANESTHESIA''"]
    by simp
qed

section \<open>Loading a configuration can fail\<close>




section \<open>Statistics\<close>

lemma fold_count_line:
  "n_L1 (fold count_line lines st)
     = n_L1 st + length (filter (\<lambda>l. contains (laquo # ''L1:'') l) lines)
   \<and> n_L2 (fold count_line lines st)
     = n_L2 st + length (filter (\<lambda>l. \<not> contains (laquo # ''L1:'') l \<and> contains (laquo # ''L2:'') l) lines)
   \<and> n_L3 (fold count_line lines st)
     = n_L3 st + length (filter (\<lambda>l. \<not> contains (laquo # ''L1:'') l \<and> \<not> contains (laquo # ''L2:'') l
                                    \<and> contains (laquo # ''L3:'') l) lines)
   \<and> n_L4 (fold count_line lines st)
     = n_L4 st + length (filter (\<lambda>l. \<not> contains (laquo # ''L1:'') l \<and> \<not> contains (laquo # ''L2:'') l
                                    \<and> \<not> contains (laquo # ''L3:'') l \<and> contains (laquo # ''L4:'') l) lines)
   \<and> n_CODE (fold count_line lines st) = n_CODE st + length (filter counted_as_code lines)
   \<and> n_provisional (fold count_line lines st)
     = n_provisional st
       + length (filter (\<lambda>l. counted_as_code l \<and> contains (laquo # ''CODE:~'') l) lines)
   \<and> n_asterisked (fold count_line lines st)
     = n_asterisked st + length (filter (\<lambda>l. counted_as_code l \<and> contains (''*'' @ [raquo]) l) lines)"
proof (induction lines arbitrary: st)
  case Nil
  show ?case by simp
next
  case (Cons l lines)
  show ?case
    unfolding fold_Cons comp_apply
    apply (subst Cons.IH [of "count_line l st", THEN conjunct1])
    apply (subst Cons.IH [of "count_line l st", THEN conjunct2, THEN conjunct1])
    apply (subst Cons.IH [of "count_line l st", THEN conjunct2, THEN conjunct2, THEN conjunct1])
    apply (subst Cons.IH [of "count_line l st", THEN conjunct2, THEN conjunct2, THEN conjunct2, THEN conjunct1])
    apply (subst Cons.IH [of "count_line l st", THEN conjunct2, THEN conjunct2, THEN conjunct2, THEN conjunct2, THEN conjunct1])
    apply (subst Cons.IH [of "count_line l st", THEN conjunct2, THEN conjunct2, THEN conjunct2, THEN conjunct2, THEN conjunct2, THEN conjunct1])
    apply (subst Cons.IH [of "count_line l st", THEN conjunct2, THEN conjunct2, THEN conjunct2, THEN conjunct2, THEN conjunct2, THEN conjunct2])
    apply (simp add: count_line_def counted_as_code_def Let_def)
    done
qed

lemma contains_prefix: "contains p (p @ s)"
proof (cases "p @ s")
  case Nil then show ?thesis by simp
next
  case (Cons c cs)
  have "is_prefix p (p @ s)" by (induction p) auto
  with Cons show ?thesis by simp
qed

lemma contains_later: "contains p s \<Longrightarrow> contains p (u @ s)"
  by (induction u) simp_all

lemma contains_needs_head: "contains (a # p) s \<Longrightarrow> a \<in> set s"
  by (induction s) auto


lemma digit_not_laquo: "isdigit c \<Longrightarrow> c \<noteq> laquo"
  by (auto simp: isdigit_def ord_def)

lemma code_marker_both:
  assumes "\<forall>c \<in> set code0. isdigit c"
  shows "counted_as_code (format_code_marker MarkerConfig_default code0 True True)
    \<and> contains (laquo # ''CODE:~'') (format_code_marker MarkerConfig_default code0 True True)
    \<and> contains (''*'' @ [raquo]) (format_code_marker MarkerConfig_default code0 True True)"
proof -
  let ?m = "format_code_marker MarkerConfig_default code0 True True"
  have m: "?m = (laquo # ''CODE:~'') @ code0 @ ''*'' @ [raquo]"
    by (simp add: format_code_marker_def MarkerConfig_default_def)
  have tail: "laquo \<notin> set (''CODE:~'' @ code0 @ ''*'' @ [raquo])"
    using assms digit_not_laquo by auto
  have no: "\<not> contains (laquo # p) (''CODE:~'' @ code0 @ ''*'' @ [raquo])" for p
    using contains_needs_head tail by blast
  have "\<not> contains (laquo # ''L1:'') ?m" "\<not> contains (laquo # ''L2:'') ?m"
       "\<not> contains (laquo # ''L3:'') ?m" "\<not> contains (laquo # ''L4:'') ?m"
    using no by (simp_all add: m)
  moreover have "contains (laquo # ''CODE:~'') ?m"
    unfolding m by (rule contains_prefix)
  moreover have "contains (laquo # ''CODE:'') ?m"
    using contains_prefix [of "laquo # ''CODE:''" "''~'' @ code0 @ ''*'' @ [raquo]"] by (simp add: m)
  moreover have "contains (''*'' @ [raquo]) ?m"
    using contains_later [OF contains_prefix [of "''*'' @ [raquo]" "[]"], of "(laquo # ''CODE:~'') @ code0"]
    by (simp add: m)
  ultimately show ?thesis by (simp add: counted_as_code_def)
qed


text \<open>
  C9. For every list of output lines, \<open>calculate_stats\<close> counts a line for the first of
  the prefixes of L1, L2, L3, L4 and CODE that occurs in it, so for at most one of the
  five counters. For a line counted as CODE, the provisional counter counts it when the
  provisional code prefix occurs in it and the asterisked counter counts it when an
  asterisk before the closing delimiter occurs in it, each test on its own: the marker
  of a provisional, asterisked code of digits is counted once by each.
\<close>

theorem stats_count_first_prefix:
  "n_L1 (calculate_stats lines cfg) = length (filter (\<lambda>l. contains (laquo # ''L1:'') l) lines)
   \<and> n_L2 (calculate_stats lines cfg)
     = length (filter (\<lambda>l. \<not> contains (laquo # ''L1:'') l \<and> contains (laquo # ''L2:'') l) lines)
   \<and> n_L3 (calculate_stats lines cfg)
     = length (filter (\<lambda>l. \<not> contains (laquo # ''L1:'') l \<and> \<not> contains (laquo # ''L2:'') l
                          \<and> contains (laquo # ''L3:'') l) lines)
   \<and> n_L4 (calculate_stats lines cfg)
     = length (filter (\<lambda>l. \<not> contains (laquo # ''L1:'') l \<and> \<not> contains (laquo # ''L2:'') l
                          \<and> \<not> contains (laquo # ''L3:'') l \<and> contains (laquo # ''L4:'') l) lines)
   \<and> n_CODE (calculate_stats lines cfg) = length (filter counted_as_code lines)
   \<and> n_provisional (calculate_stats lines cfg)
     = length (filter (\<lambda>l. counted_as_code l \<and> contains (laquo # ''CODE:~'') l) lines)
   \<and> n_asterisked (calculate_stats lines cfg)
     = length (filter (\<lambda>l. counted_as_code l \<and> contains (''*'' @ [raquo]) l) lines)
   \<and> n_L1 (calculate_stats lines cfg) + n_L2 (calculate_stats lines cfg)
       + n_L3 (calculate_stats lines cfg) + n_L4 (calculate_stats lines cfg)
       + n_CODE (calculate_stats lines cfg) \<le> length lines
   \<and> (list_all isdigit code0 \<longrightarrow>
        calculate_stats [format_code_marker MarkerConfig_default code0 True True] cfg
          = \<lparr> n_L1 = 0, n_L2 = 0, n_L3 = 0, n_L4 = 0, n_CODE = 1, n_provisional = 1,
              n_asterisked = 1 \<rparr>)"
proof -
  let ?z = "\<lparr> n_L1 = 0, n_L2 = 0, n_L3 = 0, n_L4 = 0, n_CODE = 0, n_provisional = 0,
      n_asterisked = 0 \<rparr>"
  note f = fold_count_line [of lines ?z, folded calculate_stats_def [of lines cfg]]
  have sum: "length (filter (\<lambda>l. contains (laquo # ''L1:'') l) lines)
     + length (filter (\<lambda>l. \<not> contains (laquo # ''L1:'') l \<and> contains (laquo # ''L2:'') l) lines)
     + length (filter (\<lambda>l. \<not> contains (laquo # ''L1:'') l \<and> \<not> contains (laquo # ''L2:'') l
                          \<and> contains (laquo # ''L3:'') l) lines)
     + length (filter (\<lambda>l. \<not> contains (laquo # ''L1:'') l \<and> \<not> contains (laquo # ''L2:'') l
                          \<and> \<not> contains (laquo # ''L3:'') l \<and> contains (laquo # ''L4:'') l) lines)
     + length (filter counted_as_code lines) \<le> length lines"
    by (induction lines) (auto simp: counted_as_code_def)
  have both: "list_all isdigit code0 \<longrightarrow>
        calculate_stats [format_code_marker MarkerConfig_default code0 True True] cfg
          = \<lparr> n_L1 = 0, n_L2 = 0, n_L3 = 0, n_L4 = 0, n_CODE = 1, n_provisional = 1,
              n_asterisked = 1 \<rparr>"
  proof
    assume "list_all isdigit code0"
    then have "\<forall>c \<in> set code0. isdigit c"
      by (simp add: list_all_iff)
    from code_marker_both [OF this] show "calculate_stats [format_code_marker MarkerConfig_default code0 True True] cfg
          = \<lparr> n_L1 = 0, n_L2 = 0, n_L3 = 0, n_L4 = 0, n_CODE = 1, n_provisional = 1,
              n_asterisked = 1 \<rparr>"
      by (simp add: calculate_stats_def count_line_def counted_as_code_def Let_def)
  qed
  show ?thesis using f sum both by simp
qed


theorem stats_count_first_prefix_witness:
  "list_all isdigit ''0171''
   \<and> calculate_stats [format_code_marker MarkerConfig_default ''0171'' True True] MarkerConfig_default
       = \<lparr> n_L1 = 0, n_L2 = 0, n_L3 = 0, n_L4 = 0, n_CODE = 1, n_provisional = 1, n_asterisked = 1 \<rparr>"
proof -
  have "list_all isdigit ''0171''"
    by (simp add: isdigit_def ord_def)
  then show ?thesis
    using stats_count_first_prefix [of "[]" MarkerConfig_default "''0171''"] by blast
qed

section \<open>Codes and their markers\<close>

text \<open>
  C8. From \<^verbatim>\<open>8540 Complete History and Physical Examination\<close>, \<open>extract_code_info\<close>
  gives the code 8540, neither provisional nor asterisked, and the marker is
  \<^verbatim>\<open>CODE:8540\<close> between the delimiters; from \<^verbatim>\<open>~0171*\<close> it gives the code 0171,
  provisional and asterisked, and the marker is \<^verbatim>\<open>CODE:~0171*\<close> between the delimiters.
  These are the markers the pass emits before the two lines once the content has
  started.
\<close>

theorem code_round_trip:
  "extract_code_info ''8540 Complete History and Physical Examination''
     = Some \<lparr> code = ''8540'', is_provisional = False, is_asterisked = False,
              full_match = ''8540 '' \<rparr>
   \<and> format_code_marker MarkerConfig_default ''8540'' False False = laquo # ''CODE:8540'' @ [raquo]
   \<and> output (mark_line MarkerConfig_default None
               (body_line ''8540 Complete History and Physical Examination'') active_state)
     = [laquo # ''CODE:8540'' @ [raquo], ''8540 Complete History and Physical Examination'']
   \<and> extract_code_info ''~0171*''
     = Some \<lparr> code = ''0171'', is_provisional = True, is_asterisked = True,
              full_match = ''~0171*'' \<rparr>
   \<and> format_code_marker MarkerConfig_default ''0171'' True True = laquo # ''CODE:~0171*'' @ [raquo]
   \<and> output (mark_line MarkerConfig_default None (body_line ''~0171*'') active_state)
     = [laquo # ''CODE:~0171*'' @ [raquo], ''~0171*'']"
  by code_simp

section \<open>Skipped lines\<close>

lemma isdigit_in_class: "isdigit c \<Longrightarrow> in_class ic [Digit] c"
  by (auto simp: in_class_def to_lower_def to_upper_def isupper_char_def islower_char_def isdigit_def)

lemma page_number_found:
  assumes "list_all isdigit d" "1 \<le> length d" "length d \<le> 3"
  shows "found (re_search True page_number_pattern d)"
proof -
  from assms(2,3) consider a where "d = [a]" | a b where "d = [a, b]" | a b c where "d = [a, b, c]"
    by (cases d; cases "tl d"; cases "tl (tl d)"; cases "tl (tl (tl d))") auto
  then show ?thesis
  proof cases
    case 1
    with assms(1) show ?thesis
      by (simp add: page_number_pattern_def re_search_def found_def rep.simps one_char_def
          isdigit_in_class rest_def shorter_def dec_def)
  next
    case 2
    with assms(1) show ?thesis
      by (simp add: page_number_pattern_def re_search_def found_def rep.simps one_char_def
          isdigit_in_class rest_def shorter_def dec_def)
  next
    case 3
    with assms(1) show ?thesis
      by (simp add: page_number_pattern_def re_search_def found_def rep.simps one_char_def
          isdigit_in_class rest_def shorter_def dec_def)
  qed
qed

lemma should_skip_iff:
  "should_skip cfg line
     = (int (length (strip (text line))) < min_line_length cfg
        \<or> (\<exists>pattern \<in> set (skip_patterns cfg). found (re_search True pattern (strip (text line)))))"
  by (simp add: should_skip_def Let_def list_ex_iff)

text \<open>
  C6. \<open>should_skip\<close> holds exactly when the stripped text is shorter than the configured
  minimum length or one of the skip patterns is found in the stripped text; it is a
  function of the configuration and the line. The default skip list has the pattern of a
  page number, and under a configuration that has it, once the content has started, a
  line whose stripped text is one to three digits is skipped whatever the previous line
  and the state: its text is appended to the output and nothing else changes.
\<close>

theorem skip_lines:
  "should_skip cfg line
     = (int (length (strip (text line))) < min_line_length cfg
        \<or> (\<exists>pattern \<in> set (skip_patterns cfg). found (re_search True pattern (strip (text line)))))
   \<and> page_number_pattern \<in> set (skip_patterns MarkerConfig_default)
   \<and> (page_number_pattern \<in> set (skip_patterns cfg) \<and> list_all isdigit (strip (text line))
        \<and> 1 \<le> length (strip (text line)) \<and> length (strip (text line)) \<le> 3
      \<longrightarrow> should_skip cfg line
          \<and> (content_started st
               \<longrightarrow> mark_line cfg prev_line line st = st \<lparr> output := output st @ [text line] \<rparr>))"
proof (intro conjI impI)
  show "should_skip cfg line
     = (int (length (strip (text line))) < min_line_length cfg
        \<or> (\<exists>pattern \<in> set (skip_patterns cfg). found (re_search True pattern (strip (text line)))))"
    by (rule should_skip_iff)
  show "page_number_pattern \<in> set (skip_patterns MarkerConfig_default)"
    by (simp add: MarkerConfig_default_def default_skip_patterns_def page_number_pattern_def)
next
  assume h: "page_number_pattern \<in> set (skip_patterns cfg) \<and> list_all isdigit (strip (text line))
        \<and> 1 \<le> length (strip (text line)) \<and> length (strip (text line)) \<le> 3"
  then have "found (re_search True page_number_pattern (strip (text line)))"
    using page_number_found by blast
  with h show s: "should_skip cfg line"
    unfolding should_skip_iff by blast
  assume "content_started st"
  with s show "mark_line cfg prev_line line st = st \<lparr> output := output st @ [text line] \<rparr>"
    by (simp add: mark_line_def)
qed

theorem skip_lines_witness:
  "page_number_pattern \<in> set (skip_patterns MarkerConfig_default)
   \<and> list_all isdigit (strip (text (body_line ''  417 '')))
   \<and> 1 \<le> length (strip (text (body_line ''  417 '')))
   \<and> length (strip (text (body_line ''  417 ''))) \<le> 3
   \<and> content_started active_state
   \<and> should_skip MarkerConfig_default (body_line ''  417 '')
   \<and> mark_line MarkerConfig_default (Some (body_line ''MATERNITY'')) (body_line ''  417 '') active_state
       = active_state \<lparr> output := output active_state @ [''  417 ''] \<rparr>"
proof -
  have 1: "list_all isdigit (strip (text (body_line ''  417 '')))
       \<and> 1 \<le> length (strip (text (body_line ''  417 '')))
       \<and> length (strip (text (body_line ''  417 ''))) \<le> 3"
    by code_simp
  have 2: "content_started active_state"
    by (simp add: active_state_def)
  have 3: "text (body_line ''  417 '') = ''  417 ''"
    by (simp add: body_line_def)
  show ?thesis
    using 1 2 3 skip_lines [of MarkerConfig_default "body_line ''  417 ''" active_state
        "Some (body_line ''MATERNITY'')", THEN conjunct2]
    by simp
qed

section \<open>The start of the content\<close>

lemma mark_line_output_prefix:
  "mark_line cfg p l (st \<lparr> output := out @ output st \<rparr>)
     = (mark_line cfg p l st) \<lparr> output := out @ output (mark_line cfg p l st) \<rparr>"
  by (simp add: mark_line_def Let_def split: option.split level.split)

lemma mark_loop_output_prefix:
  "mark_loop cfg p ls (st \<lparr> output := out @ output st \<rparr>)
     = (mark_loop cfg p ls st) \<lparr> output := out @ output (mark_loop cfg p ls st) \<rparr>"
proof (induction ls arbitrary: p st)
  case Nil
  show ?case by simp
next
  case (Cons l ls)
  show ?case
    by (simp add: mark_line_output_prefix Cons.IH)
qed

lemma preamble_loop:
  "\<not> content_started st \<Longrightarrow> list_all (\<lambda>l. \<not> content_starts cfg l) pre
    \<Longrightarrow> mark_loop cfg p pre st = st \<lparr> output := output st @ map text pre \<rparr>"
proof (induction pre arbitrary: p st)
  case Nil
  show ?case by simp
next
  case (Cons l pre)
  then have "mark_line cfg p l st = st \<lparr> output := output st @ [text l] \<rparr>"
    by (simp add: mark_line_def)
  with Cons show ?case by simp
qed

lemma mark_loop_append:
  "mark_loop cfg p (xs @ y # ys) st
     = mark_loop cfg (Some y) ys
         (mark_line cfg (if xs = [] then p else Some (last xs)) y (mark_loop cfg p xs st))"
  by (induction xs arbitrary: p st) simp_all

lemma mark_line_stays_active:
  "content_started st \<Longrightarrow> content_started (mark_line cfg p l st)"
  by (simp add: mark_line_def Let_def split: option.split level.split)

lemma mark_loop_stays_active:
  "content_started st \<Longrightarrow> content_started (mark_loop cfg p ls st)"
  by (induction ls arbitrary: p st) (simp_all add: mark_line_stays_active)

text \<open>
  C3, as the claim states it, fails: the program searches the content-start patterns in
  the text of the line as it is, not in the stripped text. With an anchored
  content-start pattern, an indented line whose stripped text matches does not start the
  content, and no marker is emitted.
\<close>

theorem trimmed_match_does_not_start_content:
  "found (re_search False (hd (content_start_patterns anchored_start_config))
      (strip (text (body_line ''  RULES OF APPLICATION''))))
   \<and> content_start_patterns anchored_start_config
       = [hd (content_start_patterns anchored_start_config)]
   \<and> mark_text anchored_start_config [body_line ''  RULES OF APPLICATION'', body_line ''MATERNITY'']
       = [''  RULES OF APPLICATION'', ''MATERNITY'']"
  by code_simp

text \<open>
  C3, amended. For every configuration and input, with the content-start patterns
  searched in the text of a line as it is: the lines before the first line in which a
  content-start pattern is found are emitted unchanged, with no marker and with the
  state as it was at the start; at that line the one marker of level L1 and value
  \<^verbatim>\<open>RULESOFAPPLICATION\<close> is emitted, then the line itself, and the hierarchy is still
  the initial one; the lines after it are processed as content, and the flag
  \<^verbatim>\<open>content_started\<close> holds after every later line. When no line has such a match,
  the output is the input texts.
\<close>

theorem content_start_gate:
  "(list_all (\<lambda>l. \<not> content_starts cfg l) pre \<and> content_starts cfg line
     \<longrightarrow> mark_text cfg (pre @ line # post)
           = map text pre @ [format_marker cfg ''L1'' ''RULESOFAPPLICATION'', text line]
             @ output (mark_loop cfg (Some line) post active_state)
         \<and> mark_loop cfg None pre initial_state = initial_state \<lparr> output := map text pre \<rparr>
         \<and> mark_loop cfg None (pre @ [line]) initial_state
           = active_state \<lparr> output := map text pre
               @ [format_marker cfg ''L1'' ''RULESOFAPPLICATION'', text line] \<rparr>
         \<and> content_started (mark_loop cfg None (pre @ line # take n post) initial_state))
   \<and> (list_all (\<lambda>l. \<not> content_starts cfg l) lines \<longrightarrow> mark_text cfg lines = map text lines)
   \<and> format_marker MarkerConfig_default ''L1'' ''RULESOFAPPLICATION''
       = laquo # ''L1:RULESOFAPPLICATION'' @ [raquo]"
proof (intro conjI impI)
  assume h: "list_all (\<lambda>l. \<not> content_starts cfg l) pre \<and> content_starts cfg line"
  let ?m = "format_marker cfg ''L1'' ''RULESOFAPPLICATION''"
  have i: "\<not> content_started initial_state" "output initial_state = []"
    by (simp_all add: initial_state_def)
  show pre: "mark_loop cfg None pre initial_state = initial_state \<lparr> output := map text pre \<rparr>"
    using preamble_loop [of initial_state cfg pre None] h i by simp
  have trig: "mark_line cfg p line (initial_state \<lparr> output := map text pre \<rparr>)
      = active_state \<lparr> output := map text pre @ [?m, text line] \<rparr>" for p
    using h by (simp add: mark_line_def initial_state_def active_state_def)
  show one: "mark_loop cfg None (pre @ [line]) initial_state
      = active_state \<lparr> output := map text pre @ [?m, text line] \<rparr>"
    by (simp add: mark_loop_append pre trig)
  have a: "output active_state = []" "content_started active_state"
    by (simp_all add: active_state_def initial_state_def)
  have after: "mark_loop cfg None (pre @ line # ls) initial_state
      = (mark_loop cfg (Some line) ls active_state)
          \<lparr> output := (map text pre @ [?m, text line])
               @ output (mark_loop cfg (Some line) ls active_state) \<rparr>" for ls
    using mark_loop_output_prefix [of cfg "Some line" ls "map text pre @ [?m, text line]" active_state]
    by (simp add: mark_loop_append pre trig a)
  show "mark_text cfg (pre @ line # post)
           = map text pre @ [?m, text line] @ output (mark_loop cfg (Some line) post active_state)"
    by (simp add: mark_text_def after)
  show "content_started (mark_loop cfg None (pre @ line # take n post) initial_state)"
    by (simp add: after mark_loop_stays_active a)
next
  assume "list_all (\<lambda>l. \<not> content_starts cfg l) lines"
  then show "mark_text cfg lines = map text lines"
    using preamble_loop [of initial_state cfg lines None]
    by (simp add: mark_text_def initial_state_def)
next
  show "format_marker MarkerConfig_default ''L1'' ''RULESOFAPPLICATION''
       = laquo # ''L1:RULESOFAPPLICATION'' @ [raquo]"
    by code_simp
qed

theorem content_start_gate_witness:
  "list_all (\<lambda>l. \<not> content_starts MarkerConfig_default l)
      [body_line ''Table of Contents'', body_line ''MATERNITY'']
   \<and> content_starts MarkerConfig_default (body_line '' RULES OF  APPLICATION'')
   \<and> mark_text MarkerConfig_default
        ([body_line ''Table of Contents'', body_line ''MATERNITY'']
          @ body_line '' RULES OF  APPLICATION'' # [body_line ''MATERNITY''])
      = [''Table of Contents'', ''MATERNITY'', laquo # ''L1:RULESOFAPPLICATION'' @ [raquo],
         '' RULES OF  APPLICATION'', laquo # ''L1:MATERNITY'' @ [raquo], ''MATERNITY'']
   \<and> list_all (\<lambda>l. \<not> content_starts MarkerConfig_default l) [body_line ''MATERNITY'', body_line ''8540'']
   \<and> mark_text MarkerConfig_default [body_line ''MATERNITY'', body_line ''8540'']
      = [''MATERNITY'', ''8540'']"
proof -
  have 1: "list_all (\<lambda>l. \<not> content_starts MarkerConfig_default l)
      [body_line ''Table of Contents'', body_line ''MATERNITY'']
      \<and> content_starts MarkerConfig_default (body_line '' RULES OF  APPLICATION'')
      \<and> list_all (\<lambda>l. \<not> content_starts MarkerConfig_default l)
           [body_line ''MATERNITY'', body_line ''8540'']"
    by code_simp
  have 2: "output (mark_loop MarkerConfig_default (Some (body_line '' RULES OF  APPLICATION''))
        [body_line ''MATERNITY''] active_state) = [laquo # ''L1:MATERNITY'' @ [raquo], ''MATERNITY'']"
    by code_simp
  have 3: "map text [body_line ''Table of Contents'', body_line ''MATERNITY'']
        = [''Table of Contents'', ''MATERNITY'']"
     "text (body_line '' RULES OF  APPLICATION'') = '' RULES OF  APPLICATION''"
     "map text [body_line ''MATERNITY'', body_line ''8540''] = [''MATERNITY'', ''8540'']"
    by (simp_all add: body_line_def)
  show ?thesis
    using 1 2 3
      content_start_gate [of MarkerConfig_default
        "[body_line ''Table of Contents'', body_line ''MATERNITY'']"
        "body_line '' RULES OF  APPLICATION''" "[body_line ''MATERNITY'']" 0
        "[body_line ''MATERNITY'', body_line ''8540'']"]
    by simp
qed



section \<open>The tariff-code test and the length of the description\<close>

lemma rest_simp [simp]: "rest (g, b, s) = s"
  by (simp add: rest_def)

lemma one_char_reads: "reads (one_char P)"
  by (auto simp: reads_def one_char_def split: list.splits if_splits)

lemma rep_required:
  "0 < lo \<Longrightarrow> rep m greedy lo hi st = concat (map (rep m greedy (lo - 1) (dec hi)) (m st))"
  by (subst rep.simps) simp

lemma rep_done: "rep m greedy 0 (Some 0) st = [st]"
  by (subst rep.simps) simp

lemma rep_greedy:
  "hi \<noteq> Some 0 \<Longrightarrow> rep m True 0 hi st
     = concat (map (rep m True 0 (dec hi)) (filter (\<lambda>st'. shorter st' st) (m st))) @ [st]"
  by (subst rep.simps) simp

lemma rep_lazy:
  "hi \<noteq> Some 0 \<Longrightarrow> rep m False 0 hi st
     = st # concat (map (rep m False 0 (dec hi)) (filter (\<lambda>st'. shorter st' st) (m st)))"
  by (subst rep.simps) simp

lemma readsD: "reads m \<Longrightarrow> st' \<in> set (m st) \<Longrightarrow> \<exists>u. rest st = u @ rest st'"
  unfolding reads_def by blast

lemma rep_reads:
  "reads m \<Longrightarrow> st' \<in> set (rep m greedy lo hi st) \<Longrightarrow> \<exists>u. rest st = u @ rest st'"
proof (induction m greedy lo hi st arbitrary: st' rule: rep.induct)
  case (1 m greedy lo hi st)
  note m = \<open>reads m\<close>
  note mem = \<open>st' \<in> set (rep m greedy lo hi st)\<close>
  show ?case
  proof (cases "0 < lo")
    case True
    with mem obtain s1 where s1: "s1 \<in> set (m st)" "st' \<in> set (rep m greedy (lo - 1) (dec hi) s1)"
      by (subst (asm) rep.simps) auto
    from "1.IH"(1) [OF True s1(1) m s1(2)] obtain u where "rest s1 = u @ rest st'" by blast
    moreover from readsD [OF m s1(1)] obtain w where "rest st = w @ rest s1" by blast
    ultimately show ?thesis by simp
  next
    case lo: False
    show ?thesis
    proof (cases "hi = Some 0")
      case True
      with lo mem have "st' = st" by (subst (asm) rep.simps) simp
      then show ?thesis by simp
    next
      case False
      with lo mem have "st' = st
          \<or> (\<exists>s1 \<in> set (filter (\<lambda>st'. shorter st' st) (m st)).
                st' \<in> set (rep m greedy 0 (dec hi) s1))"
        by (subst (asm) rep.simps) (auto split: if_splits)
      then show ?thesis
      proof
        assume "st' = st" then show ?thesis by simp
      next
        assume "\<exists>s1 \<in> set (filter (\<lambda>st'. shorter st' st) (m st)).
                st' \<in> set (rep m greedy 0 (dec hi) s1)"
        then obtain s1 where s1: "s1 \<in> set (filter (\<lambda>st'. shorter st' st) (m st))"
            "st' \<in> set (rep m greedy 0 (dec hi) s1)" by blast
        have "\<exists>u. rest s1 = u @ rest st'"
        proof (cases greedy)
          case True
          from "1.IH"(2) [OF lo False True s1(1) m s1(2)] show ?thesis .
        next
          case g: False
          from "1.IH"(3) [OF lo False g s1(1) m s1(2)] show ?thesis .
        qed
        then obtain u where "rest s1 = u @ rest st'" by blast
        moreover from s1(1) have "s1 \<in> set (m st)" by simp
        from readsD [OF m this] obtain w where "rest st = w @ rest s1" by blast
        ultimately show ?thesis by simp
      qed
    qed
  qed
qed

lemma rmatch_reads: "reads (rmatch ic r)"
proof (induction r)
  case (Cls as)
  show ?case using one_char_reads by simp
next
  case (NCls as)
  show ?case using one_char_reads by simp
next
  case Dot
  show ?case using one_char_reads by simp
next
  case Bol
  show ?case by (simp add: reads_def)
next
  case Eol
  show ?case by (simp add: reads_def)
next
  case Eps
  show ?case by (simp add: reads_def)
next
  case (Seq r1 r2)
  show ?case
    unfolding reads_def
  proof (intro allI impI)
    fix st st'
    assume "st' \<in> set (rmatch ic (Seq r1 r2) st)"
    then obtain s1 where s1: "s1 \<in> set (rmatch ic r1 st)" "st' \<in> set (rmatch ic r2 s1)"
      by auto
    from readsD [OF Seq.IH(1) s1(1)] obtain u where "rest st = u @ rest s1" by blast
    moreover from readsD [OF Seq.IH(2) s1(2)] obtain w where "rest s1 = w @ rest st'" by blast
    ultimately have "rest st = (u @ w) @ rest st'" by simp
    then show "\<exists>u. rest st = u @ rest st'" by blast
  qed
next
  case (Alt r1 r2)
  show ?case
    unfolding reads_def
  proof (intro allI impI)
    fix st st'
    assume "st' \<in> set (rmatch ic (Alt r1 r2) st)"
    then have "st' \<in> set (rmatch ic r1 st) \<or> st' \<in> set (rmatch ic r2 st)" by simp
    then show "\<exists>u. rest st = u @ rest st'"
      using readsD [OF Alt.IH(1)] readsD [OF Alt.IH(2)] by blast
  qed
next
  case (Rep greedy lo hi r)
  show ?case
    unfolding reads_def using rep_reads [OF Rep.IH] by simp
next
  case (Grp n r)
  show ?case
    unfolding reads_def
  proof (intro allI impI)
    fix st st'
    assume "st' \<in> set (rmatch ic (Grp n r) st)"
    then obtain s1 where "s1 \<in> set (rmatch ic r st)" "rest st' = rest s1"
      by (auto simp: rest_def)
    with readsD [OF Grp.IH] show "\<exists>u. rest st = u @ rest st'" by metis
  qed
qed


lemma same_restsD:
  "same_rests m m' \<Longrightarrow> rest st1 = rest st2 \<Longrightarrow> map rest (m st1) = map rest (m' st2)"
  unfolding same_rests_def by blast

lemma concat_map_rests:
  assumes "map rest xs = map rest ys"
    and "\<And>x y. x \<in> set xs \<Longrightarrow> rest x = rest y \<Longrightarrow> map rest (f x) = map rest (f' y)"
  shows "map rest (concat (map f xs)) = map rest (concat (map f' ys))"
  using assms
proof (induction xs arbitrary: ys)
  case Nil
  then show ?case by simp
next
  case (Cons x xs)
  from Cons.prems(1) obtain y ys' where ys: "ys = y # ys'" "rest x = rest y" "map rest xs = map rest ys'"
    by (cases ys) auto
  have "map rest (f x) = map rest (f' y)"
    using Cons.prems(2) [of x y] ys(2) by simp
  moreover have "map rest (concat (map f xs)) = map rest (concat (map f' ys'))"
    using Cons.IH [OF ys(3)] Cons.prems(2) by simp
  ultimately show ?case by (simp add: ys(1))
qed

lemma filter_shorter_rests:
  assumes "map rest xs = map rest ys" and "rest st1 = rest st2"
  shows "map rest (filter (\<lambda>s. shorter s st1) xs) = map rest (filter (\<lambda>s. shorter s st2) ys)"
  using assms(1)
proof (induction xs arbitrary: ys)
  case Nil
  then show ?case by simp
next
  case (Cons x xs)
  from Cons.prems obtain y ys' where ys: "ys = y # ys'" "rest x = rest y" "map rest xs = map rest ys'"
    by (cases ys) auto
  have "shorter x st1 = shorter y st2"
    by (simp add: shorter_def ys(2) assms(2))
  with Cons.IH [OF ys(3)] ys show ?case by simp
qed

lemma rep_rests:
  "same_rests m m' \<Longrightarrow> rest st1 = rest st2
    \<Longrightarrow> map rest (rep m greedy lo hi st1) = map rest (rep m' greedy lo hi st2)"
proof (induction m greedy lo hi st1 arbitrary: st2 rule: rep.induct)
  case (1 m greedy lo hi st1)
  note mm = \<open>same_rests m m'\<close>
  note eq = \<open>rest st1 = rest st2\<close>
  have ms: "map rest (m st1) = map rest (m' st2)"
    by (rule same_restsD [OF mm eq])
  show ?case
  proof (cases "0 < lo")
    case True
    have "map rest (concat (map (rep m greedy (lo - 1) (dec hi)) (m st1)))
        = map rest (concat (map (rep m' greedy (lo - 1) (dec hi)) (m' st2)))"
      by (rule concat_map_rests [OF ms]) (rule "1.IH"(1) [OF True _ mm])
    with True show ?thesis
      by (simp add: rep_required)
  next
    case lo: False
    show ?thesis
    proof (cases "hi = Some 0")
      case True
      with lo eq show ?thesis
        by (simp add: rep_done)
    next
      case hi: False
      have fs: "map rest (filter (\<lambda>s. shorter s st1) (m st1))
          = map rest (filter (\<lambda>s. shorter s st2) (m' st2))"
        by (rule filter_shorter_rests [OF ms eq])
      have "map rest (concat (map (rep m greedy 0 (dec hi)) (filter (\<lambda>s. shorter s st1) (m st1))))
          = map rest (concat (map (rep m' greedy 0 (dec hi)) (filter (\<lambda>s. shorter s st2) (m' st2))))"
      proof (cases greedy)
        case True
        show ?thesis
          by (rule concat_map_rests [OF fs]) (rule "1.IH"(2) [OF lo hi True _ mm])
      next
        case g: False
        show ?thesis
          by (rule concat_map_rests [OF fs]) (rule "1.IH"(3) [OF lo hi g _ mm])
      qed
      with lo hi eq show ?thesis
        by (cases greedy) (simp_all add: rep_greedy rep_lazy)
    qed
  qed
qed

lemma one_char_rests: "same_rests (one_char P) (one_char P)"
  by (auto simp: same_rests_def one_char_def rest_def split: list.splits)

lemma rmatch_erase_rests: "bol_free r \<Longrightarrow> same_rests (rmatch ic r) (rmatch ic (erase r))"
proof (induction r)
  case (Cls as)
  show ?case using one_char_rests by simp
next
  case (NCls as)
  show ?case using one_char_rests by simp
next
  case Dot
  show ?case using one_char_rests by simp
next
  case Bol
  then show ?case by simp
next
  case Eol
  show ?case by (simp add: same_rests_def)
next
  case Eps
  show ?case by (simp add: same_rests_def)
next
  case (Seq r1 r2)
  then have 1: "same_rests (rmatch ic r1) (rmatch ic (erase r1))"
    and 2: "same_rests (rmatch ic r2) (rmatch ic (erase r2))" by simp_all
  show ?case
    unfolding same_rests_def
  proof (intro allI impI)
    fix st1 st2 :: position
    assume eq: "rest st1 = rest st2"
    have "map rest (concat (map (rmatch ic r2) (rmatch ic r1 st1)))
        = map rest (concat (map (rmatch ic (erase r2)) (rmatch ic (erase r1) st2)))"
      by (rule concat_map_rests [OF same_restsD [OF 1 eq]]) (rule same_restsD [OF 2])
    then show "map rest (rmatch ic (Seq r1 r2) st1) = map rest (rmatch ic (erase (Seq r1 r2)) st2)"
      by simp
  qed
next
  case (Alt r1 r2)
  then have 1: "same_rests (rmatch ic r1) (rmatch ic (erase r1))"
    and 2: "same_rests (rmatch ic r2) (rmatch ic (erase r2))" by simp_all
  show ?case
    unfolding same_rests_def using same_restsD [OF 1] same_restsD [OF 2] by simp
next
  case (Rep greedy lo hi r)
  then have 1: "same_rests (rmatch ic r) (rmatch ic (erase r))" by simp
  show ?case
    unfolding same_rests_def using rep_rests [OF 1] by simp
next
  case (Grp n r)
  then have 1: "same_rests (rmatch ic r) (rmatch ic (erase r))" by simp
  show ?case
    unfolding same_rests_def
  proof (intro allI impI)
    fix st1 st2 :: position
    assume eq: "rest st1 = rest st2"
    have "map rest (rmatch ic (Grp n r) st1) = map rest (rmatch ic r st1)"
      by (simp add: rest_def comp_def)
    with same_restsD [OF 1 eq]
    show "map rest (rmatch ic (Grp n r) st1) = map rest (rmatch ic (erase (Grp n r)) st2)"
      by simp
  qed
qed

lemma rmatch_empty_erase:
  assumes "bol_free r"
  shows "(rmatch ic r (g, b, s) = []) = (rmatch ic (erase r) (g', b', s) = [])"
proof -
  have "map rest (rmatch ic r (g, b, s)) = map rest (rmatch ic (erase r) (g', b', s))"
    by (rule same_restsD [OF rmatch_erase_rests [OF assms]]) simp
  then show ?thesis by (metis map_is_Nil_conv)
qed

lemma rmatch_empty_position:
  assumes "bol_free r"
  shows "(rmatch ic r (g, b, s) = []) = (rmatch ic r (g', b', s) = [])"
  using rmatch_empty_erase [OF assms, of ic g b s "[]" True]
    rmatch_empty_erase [OF assms, of ic g' b' s "[]" True] by simp

lemma search_from_finds:
  assumes "bol_free r" and "rmatch ic r (g, b, v) \<noteq> []"
  shows "found (search_from ic r b' (u @ v))"
proof (induction u arbitrary: b')
  case Nil
  from assms have ne: "rmatch ic r ([], b', v) \<noteq> []"
    using rmatch_empty_position [OF assms(1), of ic g b v "[]" b'] by simp
  then show ?case
    by (cases v) (auto simp: found_def split: list.splits)
next
  case (Cons c u)
  show ?case
    using Cons.IH [of False] by (auto simp: found_def split: list.splits)
qed

lemma upt_rev_top: "lo \<le> n \<Longrightarrow> rev [lo..<Suc n] = n # rev [lo..<n]"
  by simp

lemma rep_one_char_greedy:
  assumes "list_all P u" and "v = [] \<or> \<not> P (hd v)"
  shows "rep (one_char P) True lo None (g, b, u @ v)
    = map (\<lambda>k. (g, b \<and> k = 0, drop k (u @ v))) (rev [lo..<Suc (length u)])"
  using assms(1)
proof (induction u arbitrary: lo b)
  case Nil
  have m: "one_char P (g, b, v) = []"
    using assms(2) by (cases v) (auto simp: one_char_def)
  show ?case
  proof (cases "0 < lo")
    case True
    then show ?thesis by (simp add: rep_required m)
  next
    case False
    then show ?thesis by (simp add: rep_greedy m)
  qed
next
  case (Cons c u)
  then have c: "P c" and u: "list_all P u" by simp_all
  have m: "one_char P (g, b, c # u @ v) = [(g, False, u @ v)]"
    using c by (simp add: one_char_def)
  note IH = Cons.IH [OF u, of _ False]
  show ?case
  proof (cases "0 < lo")
    case True
    then obtain lo' where lo: "lo = Suc lo'" by (cases lo) auto
    have "rep (one_char P) True lo None (g, b, (c # u) @ v)
        = map (\<lambda>k. (g, False, drop k (u @ v))) (rev [lo'..<Suc (length u)])"
      by (simp add: rep_required m lo dec_def IH del: drop_append upt_Suc)
    also have "\<dots> = map (\<lambda>k. (g, b \<and> k = 0, drop k ((c # u) @ v))) (rev [lo..<Suc (length (c # u))])"
      unfolding lo by (simp add: map_Suc_upt [symmetric] rev_map comp_def del: upt_Suc)
    finally show ?thesis .
  next
    case False
    then have lo: "lo = 0" by simp
    have "rep (one_char P) True lo None (g, b, (c # u) @ v)
        = map (\<lambda>k. (g, False, drop k (u @ v))) (rev [0..<Suc (length u)]) @ [(g, b, (c # u) @ v)]"
      by (simp add: rep_greedy m lo dec_def IH shorter_def del: drop_append upt_Suc)
    also have "\<dots> = map (\<lambda>k. (g, b \<and> k = 0, drop k ((c # u) @ v))) (rev [lo..<Suc (length (c # u))])"
    proof -
      have "[0..<Suc (Suc (length u))] = 0 # map Suc [0..<Suc (length u)]"
        by (simp add: upt_conv_Cons map_Suc_upt del: upt_Suc)
      then show ?thesis
        unfolding lo by (simp add: rev_map comp_def del: upt_Suc)
    qed
    finally show ?thesis .
  qed
qed


lemma digit_facts:
  "isdigit c \<Longrightarrow> c \<noteq> CHR ''~''" "isdigit c \<Longrightarrow> c \<noteq> CHR ''*''" "isdigit c \<Longrightarrow> c \<noteq> CHR ''.''"
  "isdigit c \<Longrightarrow> \<not> isspace c"
  by (auto simp: isdigit_def isspace_def ord_def)

lemma not_digit_facts:
  "\<not> isdigit CHR ''~''" "\<not> isdigit CHR ''*''" "\<not> isspace CHR ''*''" "\<not> isspace CHR ''~''"
  by (simp_all add: isdigit_def isspace_def ord_def)

lemma space_facts:
  "isspace c \<Longrightarrow> c \<noteq> CHR ''~''" "isspace c \<Longrightarrow> c \<noteq> CHR ''*''" "isspace c \<Longrightarrow> c \<noteq> CHR ''.''"
  by (auto simp: isspace_def ord_def)

lemma ord_line_feed: "(ord c = 10) = (c = CHR 0x0A)"
proof -
  have "ord (CHR 0x0A) = 10" by (simp add: ord_def)
  then show ?thesis unfolding ord_def by (metis of_char_eq_iff)
qed

lemma in_class_simps:
  "in_class False [Space] = isspace"
  "in_class False [Digit] = isdigit"
  "in_class False [Ch a] = (\<lambda>c. c = a)"
  by (auto simp: in_class_def fun_eq_iff)

lemma code_prefix_then:
  assumes "p = [] \<or> p = ''~''" and "isdigit d1" "isdigit d2" "isdigit d3" "isdigit d4"
    and "a = [] \<or> a = ''*''" and "isspace c"
  shows "rmatch False (Seq Bol (Seq (opt (chr CHR ''~'')) (Seq (Grp 1 (times 4 digit))
            (Seq (opt (chr CHR ''*'')) K)))) ([], True, p @ [d1, d2, d3, d4] @ a @ c # z)
       = rmatch False K ([(1, [d1, d2, d3, d4])], False, c # z)
         @ (if a = ''*'' then rmatch False K ([(1, [d1, d2, d3, d4])], False, a @ c # z) else [])"
    and "rmatch False (Seq Bol (Seq (opt (chr CHR ''~'')) (Seq (times 4 digit)
            (Seq (opt (chr CHR ''*'')) K)))) ([], True, p @ [d1, d2, d3, d4] @ a @ c # z)
       = rmatch False K ([], False, c # z)
         @ (if a = ''*'' then rmatch False K ([], False, a @ c # z) else [])"
  using assms
  by (auto simp: rep_required rep_done rep_greedy one_char_def in_class_simps dec_def shorter_def
      digit_facts space_facts not_digit_facts rest_def)


lemma rmatch_one_char:
  "rmatch ic (Cls as) = one_char (in_class ic as)"
  "rmatch ic Dot = one_char (\<lambda>c. ord c \<noteq> 10)"
  by (rule ext, simp)+

lemma rev_upt_top: "lo \<le> n \<Longrightarrow> rev [lo..<Suc n] = n # rev [lo..<n]"
  by simp

lemma plus_space_results:
  assumes "ws \<noteq> []" and "list_all isspace ws" and "v = [] \<or> \<not> isspace (hd v)"
  shows "rmatch False (plus space) (g, b, ws @ v)
    = (g, False, v) # map (\<lambda>k. (g, b \<and> k = 0, drop k (ws @ v))) (rev [1..<length ws])"
proof -
  from assms(1) have n: "1 \<le> length ws" by (cases ws) auto
  have "rmatch False (plus space) (g, b, ws @ v)
      = map (\<lambda>k. (g, b \<and> k = 0, drop k (ws @ v))) (rev [1..<Suc (length ws)])"
    unfolding rmatch.simps rmatch_one_char in_class_simps
    by (rule rep_one_char_greedy [OF assms(2,3)])
  also have "\<dots> = map (\<lambda>k. (g, b \<and> k = 0, drop k (ws @ v))) (length ws # rev [1..<length ws])"
    unfolding rev_upt_top [OF n] ..
  also have "\<dots> = (g, False, v) # map (\<lambda>k. (g, b \<and> k = 0, drop k (ws @ v))) (rev [1..<length ws])"
    using assms(1) by simp
  finally show ?thesis .
qed

lemma plus_space_then:
  assumes "ws \<noteq> []" and "list_all isspace ws" and "v = [] \<or> \<not> isspace (hd v)"
  shows "rmatch False (Seq (plus space) K) (g, b, ws @ v)
    = rmatch False K (g, False, v)
      @ concat (map (rmatch False K)
          (map (\<lambda>k. (g, b \<and> k = 0, drop k (ws @ v))) (rev [1..<length ws])))"
  unfolding rmatch.simps(7) plus_space_results [OF assms] by simp

lemma plus_dot_group_eol:
  assumes "v \<noteq> []" and "CHR 0x0A \<notin> set v"
  shows "\<exists>tl. rmatch False (Seq (Grp 2 (plus Dot)) Eol) (g, b, v) = ((2, v) # g, False, []) # tl"
proof -
  from assms(1) have n: "1 \<le> length v" by (cases v) auto
  have all: "list_all (\<lambda>c. ord c \<noteq> 10) v"
    using assms(2) by (auto simp: list_all_iff ord_line_feed)
  have "rmatch False (plus Dot) (g, b, v @ [])
      = map (\<lambda>k. (g, b \<and> k = 0, drop k (v @ []))) (rev [1..<Suc (length v)])"
    unfolding rmatch.simps rmatch_one_char
    by (rule rep_one_char_greedy [OF all]) simp
  also have "\<dots> = map (\<lambda>k. (g, b \<and> k = 0, drop k (v @ []))) (length v # rev [1..<length v])"
    unfolding rev_upt_top [OF n] ..
  finally have "rmatch False (plus Dot) (g, b, v)
      = (g, False, []) # map (\<lambda>k. (g, b \<and> k = 0, drop k v)) (rev [1..<length v])"
    using assms(1) by simp
  then have "rmatch False (Seq (Grp 2 (plus Dot)) Eol) (g, b, v)
      = ((2, v) # g, False, [])
        # concat (map (rmatch False Eol)
            (map (\<lambda>st'. ((2, take (length v - length (rest st')) v) # fst st', fst (snd st'), rest st'))
               (map (\<lambda>k. (g, b \<and> k = 0, drop k v)) (rev [1..<length v]))))"
    unfolding rmatch.simps(7) rmatch.simps(10) by (simp add: rest_def)
  then show ?thesis by blast
qed

lemma star_space_eol_fails:
  assumes "list_all isspace u" and "v \<noteq> []" and "\<not> isspace (hd v)"
  shows "rmatch False (Seq (star space) Eol) (g, b, u @ v) = []"
proof -
  have sp: "isspace (CHR 0x0A)" by (simp add: isspace_def ord_def)
  have no: "rmatch False Eol (g, b \<and> k = 0, drop k (u @ v)) = []" if "k \<le> length u" for k
  proof -
    from that have d: "drop k (u @ v) = drop k u @ v" by simp
    have "drop k u @ v \<noteq> [CHR 0x0A]"
    proof
      assume "drop k u @ v = [CHR 0x0A]"
      with assms(2) have "v = [CHR 0x0A]"
        by (cases "drop k u") (auto simp: append_eq_Cons_conv)
      with assms(3) sp show False by simp
    qed
    with d assms(2) show ?thesis by (simp add: rest_def)
  qed
  have "rmatch False (star space) (g, b, u @ v)
      = map (\<lambda>k. (g, b \<and> k = 0, drop k (u @ v))) (rev [0..<Suc (length u)])"
    unfolding rmatch.simps rmatch_one_char in_class_simps
    by (rule rep_one_char_greedy [OF assms(1)]) (use assms(3) in simp)
  then have "rmatch False (Seq (star space) Eol) (g, b, u @ v)
      = concat (map (\<lambda>k. rmatch False Eol (g, b \<and> k = 0, drop k (u @ v))) (rev [0..<Suc (length u)]))"
    unfolding rmatch.simps(7) by (simp add: comp_def del: upt_Suc drop_append rmatch.simps)
  also have "\<dots> = []"
    using no by (simp del: upt_Suc drop_append rmatch.simps)
  finally show ?thesis .
qed


lemma seq_nonempty:
  assumes "\<exists>u. t = u @ rest st" and "rmatch ic (Seq r1 r2) st \<noteq> []"
  shows "\<exists>s1. (\<exists>u. t = u @ rest s1) \<and> rmatch ic r2 s1 \<noteq> []"
proof -
  from assms(2) obtain s1 where s1: "s1 \<in> set (rmatch ic r1 st)" "rmatch ic r2 s1 \<noteq> []"
    by auto
  from readsD [OF rmatch_reads s1(1)] obtain w where "rest st = w @ rest s1" by blast
  moreover from assms(1) obtain u where "t = u @ rest st" by blast
  ultimately have "t = (u @ w) @ rest s1" by simp
  with s1(2) show ?thesis by blast
qed

lemma dots_need_dot:
  assumes "rmatch False (Seq (at_least 3 (chr CHR ''.'')) K) st \<noteq> []"
  shows "rest st \<noteq> [] \<and> hd (rest st) = CHR ''.''"
proof -
  obtain g b v where st: "st = (g, b, v)" by (cases st) auto
  from assms have "rmatch False (at_least 3 (chr CHR ''.'')) st \<noteq> []" by auto
  then have "one_char (\<lambda>c. c = CHR ''.'') st \<noteq> []"
    unfolding rmatch.simps rmatch_one_char in_class_simps by (auto simp: rep_required)
  then show ?thesis
    unfolding st by (cases v) (auto simp: one_char_def split: if_splits)
qed

lemma code_with_fee_fails:
  assumes "CHR ''.'' \<notin> set pw" and "\<not> found (re_search False default_fee_pattern v)"
  shows "re_match False default_code_with_fee_pattern (pw @ v) = None"
proof -
  let ?t = "pw @ v"
  let ?tail = "Seq (at_least 3 (chr CHR ''.'')) (Seq (star space)
      (Seq (plus (Cls [Digit, Ch CHR '','']))  (Seq (chr CHR ''.'') (times 2 digit))))"
  have tail: "erase default_fee_pattern = ?tail"
    by (simp add: default_fee_pattern_def)
  have free: "bol_free default_fee_pattern"
    by (simp add: default_fee_pattern_def)
  have "rmatch False default_code_with_fee_pattern ([], True, ?t) = []"
  proof (rule ccontr)
    assume ne: "rmatch False default_code_with_fee_pattern ([], True, ?t) \<noteq> []"
    have 0: "\<exists>u. ?t = u @ rest ([]::captures, True, ?t)" by simp
    from seq_nonempty [OF 0 ne [unfolded default_code_with_fee_pattern_def seqs.simps]]
    obtain s1 where 1: "\<exists>u. ?t = u @ rest s1"
      and n1: "rmatch False (Seq (opt (chr CHR ''~'')) (Seq (Grp 1 (times 4 digit))
        (Seq (opt (chr CHR ''*'')) (Seq (plus space) (Seq (lazy_plus Dot) ?tail))))) s1 \<noteq> []"
      by blast
    from seq_nonempty [OF 1 n1]
    obtain s2 where 2: "\<exists>u. ?t = u @ rest s2"
      and n2: "rmatch False (Seq (Grp 1 (times 4 digit))
        (Seq (opt (chr CHR ''*'')) (Seq (plus space) (Seq (lazy_plus Dot) ?tail)))) s2 \<noteq> []"
      by blast
    from seq_nonempty [OF 2 n2]
    obtain s3 where 3: "\<exists>u. ?t = u @ rest s3"
      and n3: "rmatch False (Seq (opt (chr CHR ''*'')) (Seq (plus space)
        (Seq (lazy_plus Dot) ?tail))) s3 \<noteq> []"
      by blast
    from seq_nonempty [OF 3 n3]
    obtain s4 where 4: "\<exists>u. ?t = u @ rest s4"
      and n4: "rmatch False (Seq (plus space) (Seq (lazy_plus Dot) ?tail)) s4 \<noteq> []"
      by blast
    from seq_nonempty [OF 4 n4]
    obtain s5 where 5: "\<exists>u. ?t = u @ rest s5"
      and n5: "rmatch False (Seq (lazy_plus Dot) ?tail) s5 \<noteq> []"
      by blast
    from seq_nonempty [OF 5 n5]
    obtain s6 where 6: "\<exists>u. ?t = u @ rest s6" and n6: "rmatch False ?tail s6 \<noteq> []"
      by blast
    obtain g6 b6 w where s6: "s6 = (g6, b6, w)" by (cases s6) auto
    from dots_need_dot [OF n6] have w: "w \<noteq> []" "hd w = CHR ''.''" by (simp_all add: s6)
    from 6 obtain u where u: "pw @ v = u @ w" by (auto simp: s6)
    have "\<exists>u'. v = u' @ w"
    proof -
      from u consider us where "pw = u @ us" "us @ v = w" | us where "pw @ us = u" "v = us @ w"
        by (auto simp: append_eq_append_conv2)
      then show ?thesis
      proof cases
        case 1
        show ?thesis
        proof (cases us)
          case Nil
          with 1 show ?thesis by simp
        next
          case (Cons c cs)
          with 1 w have "CHR ''.'' \<in> set pw" by auto
          with assms(1) show ?thesis by simp
        qed
      next
        case 2
        then show ?thesis by blast
      qed
    qed
    then obtain u' where v: "v = u' @ w" by blast
    from n6 have "rmatch False default_fee_pattern ([], True, w) \<noteq> []"
      using rmatch_empty_erase [OF free, of False "[]" True w g6 b6] by (simp add: tail s6)
    from search_from_finds [OF free this, of True u']
    have "found (re_search False default_fee_pattern v)"
      by (simp add: re_search_def v)
    with assms(2) show False by simp
  qed
  then show ?thesis by (simp add: re_match_def)
qed


lemma strip_all_space: "strip r = [] \<Longrightarrow> list_all isspace r"
proof -
  assume e: "strip r = []"
  then have "dropWhile isspace (rev (lstrip r)) = []"
    by (simp add: strip_def rstrip_def)
  then have "\<forall>c \<in> set (lstrip r). isspace c"
    by (simp add: dropWhile_eq_Nil_conv)
  with lstrip_hd [of r] have "lstrip r = []"
    by (cases "lstrip r") auto
  then show ?thesis
    by (simp add: lstrip_def dropWhile_eq_Nil_conv list_all_iff)
qed

lemma dot_group_eol_fails:
  assumes "CHR 0x0A \<in> set x" and "\<not> isspace (last x)"
  shows "rmatch False (Seq (Grp 2 (plus Dot)) Eol) (g, b, x) = []"
proof -
  let ?P = "\<lambda>c. ord c \<noteq> 10"
  define u where "u = takeWhile ?P x"
  define w where "w = dropWhile ?P x"
  have x: "x = u @ w" by (simp add: u_def w_def)
  have sp: "isspace (CHR 0x0A)" by (simp add: isspace_def ord_def)
  have w: "w \<noteq> []"
    using assms(1) by (auto simp: w_def dropWhile_eq_Nil_conv ord_line_feed)
  then have hd: "\<not> ?P (hd w)"
    unfolding w_def by (rule hd_dropWhile)
  have all: "list_all ?P u"
    by (auto simp: u_def list_all_iff dest: set_takeWhileD)
  have res: "rmatch False (plus Dot) (g, b, u @ w)
      = map (\<lambda>k. (g, b \<and> k = 0, drop k (u @ w))) (rev [1..<Suc (length u)])"
    unfolding rmatch.simps rmatch_one_char
    by (rule rep_one_char_greedy [OF all]) (use hd in simp)
  have no: "rmatch False Eol s1 = []" if "s1 \<in> set (rmatch False (Grp 2 (plus Dot)) (g, b, x))" for s1
  proof -
    from that obtain s0 where s0: "s0 \<in> set (rmatch False (plus Dot) (g, b, x))" "rest s1 = rest s0"
      by (auto simp: rest_def)
    from s0(1) have "s0 \<in> (\<lambda>k. (g, b \<and> k = 0, drop k (u @ w))) ` set [1..<Suc (length u)]"
      unfolding x res by (simp del: upt_Suc drop_append)
    then obtain k where "k < Suc (length u)" "s0 = (g, b \<and> k = 0, drop k (u @ w))"
      by (auto simp del: upt_Suc drop_append)
    then have k: "k \<le> length u" "rest s0 = drop k (u @ w)"
      by (simp_all del: drop_append)
    from k have r: "rest s1 = drop k u @ w" using s0(2) by simp
    have "drop k u @ w \<noteq> [CHR 0x0A]"
    proof
      assume "drop k u @ w = [CHR 0x0A]"
      with w have "w = [CHR 0x0A]"
        by (cases "drop k u") (auto simp: append_eq_Cons_conv)
      then have "last x = CHR 0x0A" by (simp add: x)
      with assms(2) sp show False by simp
    qed
    with r w show ?thesis by simp
  qed
  show ?thesis
    unfolding rmatch.simps(7) using no by (simp del: rmatch.simps)
qed

lemma plus_space_none:
  assumes "\<not> isspace c"
  shows "rmatch False (Seq (plus space) K) (g, b, c # y) = []"
proof -
  have "rmatch False (plus space) (g, b, [] @ c # y)
      = map (\<lambda>k. (g, b \<and> k = 0, drop k ([] @ c # y))) (rev [1..<Suc (length ([]::string))])"
    unfolding rmatch.simps rmatch_one_char in_class_simps
    by (rule rep_one_char_greedy) (use assms in simp_all)
  then have "rmatch False (plus space) (g, b, c # y) = []" by simp
  then show ?thesis unfolding rmatch.simps(7) by simp
qed

lemma description_fails_on_line_feed:
  assumes ws: "ws \<noteq> []" "list_all isspace ws"
    and v: "v \<noteq> []" "\<not> isspace (hd v)" "\<not> isspace (last v)" "CHR 0x0A \<in> set v"
  shows "rmatch False (Seq (plus space) (Seq (Grp 2 (plus Dot)) Eol)) (g, b, ws @ v) = []"
proof -
  let ?K = "Seq (Grp 2 (plus Dot)) Eol"
  have f: "rmatch False ?K (g', b', drop k (ws @ v)) = []" if "k \<le> length ws" for g' b' k
  proof -
    from that have d: "drop k (ws @ v) = drop k ws @ v" by simp
    show ?thesis
      unfolding d by (rule dot_group_eol_fails) (use v in simp_all)
  qed
  have f0: "rmatch False ?K (g, False, v) = []"
    using f [of "length ws" g False] by simp
  have "rmatch False (Seq (plus space) ?K) (g, b, ws @ v)
      = rmatch False ?K (g, False, v)
        @ concat (map (rmatch False ?K)
            (map (\<lambda>k. (g, b \<and> k = 0, drop k (ws @ v))) (rev [1..<length ws])))"
    by (rule plus_space_then [OF ws]) (use v(2) in simp)
  also have "\<dots> = concat (map (\<lambda>k. rmatch False ?K (g, b \<and> k = 0, drop k (ws @ v))) (rev [1..<length ws]))"
    unfolding f0 by (simp add: comp_def del: rmatch.simps drop_append)
  also have "\<dots> = []"
    using f by (simp del: rmatch.simps drop_append)
  finally show ?thesis .
qed

lemma tariff_code_maximal:
  assumes t: "strip s = p @ [d1, d2, d3, d4] @ a @ ws @ v"
    and p: "p = [] \<or> p = ''~''" and d: "isdigit d1" "isdigit d2" "isdigit d3" "isdigit d4"
    and a: "a = [] \<or> a = ''*''" and ws: "ws \<noteq> []" "list_all isspace ws"
    and v: "v \<noteq> []" "\<not> isspace (hd v)"
    and fee: "\<not> found (re_search False (fee_pattern MarkerConfig_default) v)"
  shows "is_tariff_code MarkerConfig_default s
    = (CHR 0x0A \<notin> set v \<and> \<not> found (re_match False index_entry v)
       \<and> \<not> found (re_match False page_references v) \<and> 10 < length v)"
proof -
  obtain c z where cz: "ws = c # z" "isspace c" "list_all isspace z"
    using ws by (cases ws) auto
  have t': "strip s = p @ [d1, d2, d3, d4] @ a @ c # (z @ v)"
    by (simp add: t cz(1))
  have wsv: "c # (z @ v) = ws @ v"
    by (simp add: cz(1))
  have "strip s \<noteq> []" using t v(1) by simp
  from strip_last [OF this] have last_v: "\<not> isspace (last v)" using t v(1) by simp
  have sv: "strip v = v"
    by (rule strip_id) (use v(2) last_v in simp)
  have nodot: "CHR ''.'' \<notin> set (p @ [d1, d2, d3, d4] @ a @ ws)"
    using p d a ws(2) digit_facts(3) space_facts(3) by (auto simp: list_all_iff)
  have "re_match False default_code_with_fee_pattern ((p @ [d1, d2, d3, d4] @ a @ ws) @ v) = None"
    by (rule code_with_fee_fails [OF nodot]) (use fee in \<open>simp add: MarkerConfig_default_def\<close>)
  then have 1: "re_match False (code_with_fee_pattern MarkerConfig_default) (strip s) = None"
    by (simp add: MarkerConfig_default_def t)

  let ?K2 = "Seq (star space) Eol"
  have k2a: "rmatch False ?K2 ([], False, c # (z @ v)) = []"
    unfolding wsv by (rule star_space_eol_fails [OF ws(2) v(1) v(2)])
  have k2b: "rmatch False ?K2 ([], False, ''*'' @ c # (z @ v)) = []"
    using star_space_eol_fails [of "[]" "''*'' @ c # (z @ v)" "[]" False] not_digit_facts(3)
    by simp
  have "rmatch False standalone_code ([], True, strip s)
      = rmatch False ?K2 ([], False, c # (z @ v))
        @ (if a = ''*'' then rmatch False ?K2 ([], False, a @ c # (z @ v)) else [])"
    unfolding standalone_code_def seqs.simps t'
    by (rule code_prefix_then(2) [OF p d a cz(2)])
  then have "rmatch False standalone_code ([], True, strip s)
      = (if a = ''*'' then rmatch False ?K2 ([], False, a @ c # (z @ v)) else [])"
    unfolding k2a by (simp only: append_Nil)
  then have "rmatch False standalone_code ([], True, strip s) = []"
    using k2b by (cases "a = ''*''") (simp_all only: if_True if_False if_cancel)
  then have 2: "re_match False standalone_code (strip s) = None"
    by (simp add: re_match_def)

  let ?g = "[(1, [d1, d2, d3, d4])] :: captures"
  let ?K3 = "Seq (plus space) (Seq (Grp 2 (plus Dot)) Eol)"
  have eq3: "rmatch False code_then_description ([], True, strip s)
      = rmatch False ?K3 (?g, False, c # (z @ v))
        @ (if a = ''*'' then rmatch False ?K3 (?g, False, a @ c # (z @ v)) else [])"
    unfolding code_then_description_def seqs.simps t'
    by (rule code_prefix_then(1) [OF p d a cz(2)])
  have f: "found None = False" "found (Some m) = True" for m
    by (simp_all add: found_def)
  show ?thesis
  proof (cases "CHR 0x0A \<in> set v")
    case True
    have k3a: "rmatch False ?K3 (?g, False, c # (z @ v)) = []"
      unfolding wsv by (rule description_fails_on_line_feed [OF ws v last_v True])
    have k3b: "rmatch False ?K3 (?g, False, ''*'' @ c # (z @ v)) = []"
      unfolding append_Cons append_Nil by (rule plus_space_none) (rule not_digit_facts(3))
    from eq3 have "rmatch False code_then_description ([], True, strip s)
        = (if a = ''*'' then rmatch False ?K3 (?g, False, a @ c # (z @ v)) else [])"
      unfolding k3a by (simp only: append_Nil)
    then have "rmatch False code_then_description ([], True, strip s) = []"
      using k3b by (cases "a = ''*''") (simp_all only: if_True if_False if_cancel)
    then have 3: "re_match False code_then_description (strip s) = None"
      by (simp add: re_match_def)
    show ?thesis
      unfolding is_tariff_code_def Let_def strip_idem 1 2 3
      using True by (simp add: f)
  next
    case False
    obtain tl where tl: "rmatch False (Seq (Grp 2 (plus Dot)) Eol) (?g, False, v)
        = ((2, v) # ?g, False, []) # tl"
      using plus_dot_group_eol [OF v(1) False] by blast
    have "rmatch False ?K3 (?g, False, ws @ v)
        = rmatch False (Seq (Grp 2 (plus Dot)) Eol) (?g, False, v)
          @ concat (map (rmatch False (Seq (Grp 2 (plus Dot)) Eol))
              (map (\<lambda>k. (?g, False \<and> k = 0, drop k (ws @ v))) (rev [1..<length ws])))"
      by (rule plus_space_then [OF ws]) (use v(2) in simp)
    then have "\<exists>tl2. rmatch False ?K3 (?g, False, c # (z @ v)) = ((2, v) # ?g, False, []) # tl2"
      unfolding tl wsv append_Cons by blast
    then obtain tl2 where k3: "rmatch False ?K3 (?g, False, c # (z @ v))
        = ((2, v) # ?g, False, []) # tl2"
      by blast
    from eq3 have "\<exists>tl3. rmatch False code_then_description ([], True, strip s)
        = ((2, v) # ?g, False, []) # tl3"
      unfolding k3 append_Cons by blast
    then obtain tl3 where "rmatch False code_then_description ([], True, strip s)
        = ((2, v) # ?g, False, []) # tl3"
      by blast
    then have 3: "re_match False code_then_description (strip s) = Some ((2, v) # ?g, False, [])"
      by (simp add: re_match_def)
    show ?thesis
      unfolding is_tariff_code_def Let_def strip_idem 1 2 3
      using False by (auto simp: f group_def sv)
  qed
qed

text \<open>
  C7, as the claim states it, fails. The program sets a remainder aside as an index
  entry as soon as it begins with a dotted leader and one page reference, also when
  other text follows: such a remainder is not solely a leader and page references, has
  no fee leader and is longer than 10 characters, and the test fails. The test also
  fails for a long remainder that holds a line feed.
\<close>

theorem tariff_code_long_remainder_rejected:
  "strip ''8540 ... C-19 and more text here'' = ''8540'' @ '' '' @ ''... C-19 and more text here''
   \<and> \<not> found (re_match False solely_leader_and_references ''... C-19 and more text here'')
   \<and> \<not> found (re_match False page_references ''... C-19 and more text here'')
   \<and> \<not> found (re_search False (fee_pattern MarkerConfig_default) ''... C-19 and more text here'')
   \<and> length ''... C-19 and more text here'' = 27
   \<and> \<not> is_tariff_code MarkerConfig_default ''8540 ... C-19 and more text here''
   \<and> strip (''8540 Office call'' @ [CHR 0x0A] @ ''at home'')
       = ''8540'' @ '' '' @ (''Office call'' @ [CHR 0x0A] @ ''at home'')
   \<and> \<not> found (re_match False solely_leader_and_references (''Office call'' @ [CHR 0x0A] @ ''at home''))
   \<and> \<not> found (re_match False page_references (''Office call'' @ [CHR 0x0A] @ ''at home''))
   \<and> \<not> found (re_search False (fee_pattern MarkerConfig_default)
          (''Office call'' @ [CHR 0x0A] @ ''at home''))
   \<and> length (''Office call'' @ [CHR 0x0A] @ ''at home'') = 19
   \<and> \<not> is_tariff_code MarkerConfig_default (''8540 Office call'' @ [CHR 0x0A] @ ''at home'')"
  by code_simp

text \<open>
  C7, amended. Under the default configuration, take a line whose stripped text is an
  optional \<^verbatim>\<open>~\<close>, four digits, an optional \<^verbatim>\<open>*\<close>, white space, and a remainder with no
  fee leader in it. The tariff-code test holds for the line exactly when the stripped
  remainder holds no line feed, does not begin with a dotted leader followed by a page
  reference, is not solely a list of page references, and is longer than 10 characters:
  10 characters do not qualify, 11 do.
\<close>

theorem tariff_code_description_length:
  assumes "strip s = p @ ds @ a @ ws @ r"
    and "p = [] \<or> p = ''~''" and "length ds = 4" and "list_all isdigit ds"
    and "a = [] \<or> a = ''*''" and "ws \<noteq> []" and "list_all isspace ws"
    and "\<not> found (re_search False (fee_pattern MarkerConfig_default) (strip r))"
  shows "is_tariff_code MarkerConfig_default s
    = (CHR 0x0A \<notin> set (strip r) \<and> \<not> found (re_match False index_entry (strip r))
       \<and> \<not> found (re_match False page_references (strip r)) \<and> 10 < length (strip r))"
proof -
  define v where "v = lstrip r"
  define ws' where "ws' = ws @ takeWhile isspace r"
  have r: "r = takeWhile isspace r @ v"
    by (simp add: v_def lstrip_def)
  have t: "strip s = p @ ds @ a @ ws' @ v"
    using assms(1) r by (simp add: ws'_def)
  have ds_ne: "ds \<noteq> []" using assms(3) by auto
  have v_ne: "v \<noteq> []"
  proof
    assume "v = []"
    then have "strip r = []" by (simp add: strip_def v_def rstrip_def)
    then have "list_all isspace r" by (rule strip_all_space)
    with assms(6,7) have "isspace (last (ws @ r))"
      by (cases "r = []") (auto simp: list_all_iff)
    moreover have "last (strip s) = last (ws @ r)"
      using assms(1,6) by simp
    moreover have "strip s \<noteq> []" using assms(1) ds_ne by simp
    ultimately show False using strip_last by metis
  qed
  have hd_v: "\<not> isspace (hd v)"
    using lstrip_hd [of r] v_ne by (simp add: v_def)
  have "strip s \<noteq> []" using t v_ne by simp
  from strip_last [OF this] have "\<not> isspace (last v)" using t v_ne by simp
  then have "rstrip v = v" by (simp add: rstrip_id)
  then have sr: "strip r = v" by (simp add: strip_def v_def)
  have ws': "ws' \<noteq> []" "list_all isspace ws'"
    using assms(6,7) by (auto simp: ws'_def list_all_iff dest: set_takeWhileD)
  obtain d1 d2 d3 d4 where ds: "ds = [d1, d2, d3, d4]"
    using assms(3) by (auto simp: length_Suc_conv numeral_eq_Suc)
  have d: "isdigit d1" "isdigit d2" "isdigit d3" "isdigit d4"
    using assms(4) by (simp_all add: ds)
  have "is_tariff_code MarkerConfig_default s
      = (CHR 0x0A \<notin> set v \<and> \<not> found (re_match False index_entry v)
         \<and> \<not> found (re_match False page_references v) \<and> 10 < length v)"
    by (rule tariff_code_maximal [OF t [unfolded ds] assms(2) d assms(5) ws' v_ne hd_v])
      (use assms(8) in \<open>simp add: sr\<close>)
  then show ?thesis by (simp only: sr)
qed

theorem tariff_code_description_length_witness:
  "strip ''8540  Office call'' = [] @ ''8540'' @ [] @ ''  '' @ ''Office call''
   \<and> length ''8540'' = 4 \<and> list_all isdigit ''8540'' \<and> list_all isspace ''  ''
   \<and> strip ''Office call'' = ''Office call''
   \<and> \<not> found (re_search False (fee_pattern MarkerConfig_default) ''Office call'')
   \<and> CHR 0x0A \<notin> set ''Office call''
   \<and> \<not> found (re_match False index_entry ''Office call'')
   \<and> \<not> found (re_match False page_references ''Office call'')
   \<and> length ''Office call'' = 11
   \<and> is_tariff_code MarkerConfig_default ''8540  Office call''
   \<and> strip ''~8540* Office cal'' = ''~'' @ ''8540'' @ ''*'' @ '' '' @ ''Office cal''
   \<and> list_all isspace '' ''
   \<and> strip ''Office cal'' = ''Office cal''
   \<and> \<not> found (re_search False (fee_pattern MarkerConfig_default) ''Office cal'')
   \<and> CHR 0x0A \<notin> set ''Office cal''
   \<and> \<not> found (re_match False index_entry ''Office cal'')
   \<and> \<not> found (re_match False page_references ''Office cal'')
   \<and> length ''Office cal'' = 10
   \<and> \<not> is_tariff_code MarkerConfig_default ''~8540* Office cal''
   \<and> strip ''8540 ... C-19 and more text here''
       = [] @ ''8540'' @ [] @ '' '' @ ''... C-19 and more text here''
   \<and> strip ''... C-19 and more text here'' = ''... C-19 and more text here''
   \<and> \<not> found (re_search False (fee_pattern MarkerConfig_default) ''... C-19 and more text here'')
   \<and> found (re_match False index_entry ''... C-19 and more text here'')
   \<and> \<not> is_tariff_code MarkerConfig_default ''8540 ... C-19 and more text here''"
proof -
  have 1: "strip ''8540  Office call'' = [] @ ''8540'' @ [] @ ''  '' @ ''Office call''
      \<and> length ''8540'' = 4 \<and> list_all isdigit ''8540'' \<and> list_all isspace ''  ''
      \<and> strip ''Office call'' = ''Office call''
      \<and> \<not> found (re_search False (fee_pattern MarkerConfig_default) ''Office call'')
      \<and> CHR 0x0A \<notin> set ''Office call''
      \<and> \<not> found (re_match False index_entry ''Office call'')
      \<and> \<not> found (re_match False page_references ''Office call'')
      \<and> length ''Office call'' = 11"
    by code_simp
  have 2: "strip ''~8540* Office cal'' = ''~'' @ ''8540'' @ ''*'' @ '' '' @ ''Office cal''
      \<and> list_all isspace '' ''
      \<and> strip ''Office cal'' = ''Office cal''
      \<and> \<not> found (re_search False (fee_pattern MarkerConfig_default) ''Office cal'')
      \<and> CHR 0x0A \<notin> set ''Office cal''
      \<and> \<not> found (re_match False index_entry ''Office cal'')
      \<and> \<not> found (re_match False page_references ''Office cal'')
      \<and> length ''Office cal'' = 10"
    by code_simp
  have 3: "strip ''8540 ... C-19 and more text here''
        = [] @ ''8540'' @ [] @ '' '' @ ''... C-19 and more text here''
      \<and> strip ''... C-19 and more text here'' = ''... C-19 and more text here''
      \<and> \<not> found (re_search False (fee_pattern MarkerConfig_default) ''... C-19 and more text here'')
      \<and> found (re_match False index_entry ''... C-19 and more text here'')"
    by code_simp
  have a: "is_tariff_code MarkerConfig_default ''8540  Office call''
      = (CHR 0x0A \<notin> set (strip ''Office call'')
         \<and> \<not> found (re_match False index_entry (strip ''Office call''))
         \<and> \<not> found (re_match False page_references (strip ''Office call''))
         \<and> 10 < length (strip ''Office call''))"
    by (rule tariff_code_description_length [of _ "[]" "''8540''" "[]" "''  ''"])
      (use 1 in simp_all)
  have b: "is_tariff_code MarkerConfig_default ''~8540* Office cal''
      = (CHR 0x0A \<notin> set (strip ''Office cal'')
         \<and> \<not> found (re_match False index_entry (strip ''Office cal''))
         \<and> \<not> found (re_match False page_references (strip ''Office cal''))
         \<and> 10 < length (strip ''Office cal''))"
    by (rule tariff_code_description_length [of _ "''~''" "''8540''" "''*''" "'' ''"])
      (use 1 2 in simp_all)
  have c: "is_tariff_code MarkerConfig_default ''8540 ... C-19 and more text here''
      = (CHR 0x0A \<notin> set (strip ''... C-19 and more text here'')
         \<and> \<not> found (re_match False index_entry (strip ''... C-19 and more text here''))
         \<and> \<not> found (re_match False page_references (strip ''... C-19 and more text here''))
         \<and> 10 < length (strip ''... C-19 and more text here''))"
    by (rule tariff_code_description_length [of _ "[]" "''8540''" "[]" "'' ''"])
      (use 1 2 3 in simp_all)
  have a': "is_tariff_code MarkerConfig_default ''8540  Office call''"
    using a 1 by simp
  have b': "\<not> is_tariff_code MarkerConfig_default ''~8540* Office cal''"
    using b 2 by simp
  have c': "\<not> is_tariff_code MarkerConfig_default ''8540 ... C-19 and more text here''"
    using c 3 by simp
  show ?thesis
    using 1 2 3 a' b' c' by simp
qed

end
